theory Spec2Isabelle
  imports Main "HOL-Library.Multiset"
begin

section \<open>Python values used by \<^verbatim>\<open>mailscout/scout.py\<close>\<close>

text \<open>
  A Python \<^verbatim>\<open>str\<close> is a sequence of Unicode code points, and \<^verbatim>\<open>name[0]\<close> and
  \<^verbatim>\<open>split\<close> work on code points, so a string is a list of code points (naturals).
  \<open>ascii\<close> embeds an ASCII literal.
\<close>

type_synonym pychar = nat
type_synonym pystr = "pychar list"

definition ascii :: "string \<Rightarrow> pystr" where
  "ascii s = map of_char s"

abbreviation AT :: pychar where "AT \<equiv> 64"
abbreviation DOT :: pychar where "DOT \<equiv> 46"
abbreviation SPACE :: pychar where "SPACE \<equiv> 32"

text \<open>
  The exceptions the module can raise or meet. All of them are subclasses of
  \<^verbatim>\<open>Exception\<close>, so \<^verbatim>\<open>except Exception\<close> catches each of them. UnicodeEncodeError
  is what \<^verbatim>\<open>print\<close> raises on text that the standard output cannot encode; the last
  three stand for the failures of the libraries (dnspython, smtplib, sockets).
\<close>

datatype exn = IndexError | AssertionError | AttributeError | TypeError | UnicodeEncodeError
  | DNSException | OSError | SMTPException

text \<open>\<^verbatim>\<open>xs[i]\<close> for an index \<open>i \<ge> 0\<close>: IndexError out of range.\<close>

definition py_index :: "'a list \<Rightarrow> nat \<Rightarrow> exn + 'a" where
  "py_index xs i = (if i < length xs then Inr (xs ! i) else Inl IndexError)"

text \<open>
  \<^verbatim>\<open>s.split(sep)\<close> with a one-character separator: every occurrence of the separator
  cuts, so consecutive separators give empty pieces and the result is never empty.
\<close>

fun split_on :: "pychar \<Rightarrow> pystr \<Rightarrow> pystr list" where
  "split_on sep [] = [[]]"
| "split_on sep (c # cs) =
     (if c = sep then [] # split_on sep cs
      else (case split_on sep cs of
              w # ws \<Rightarrow> (c # w) # ws
            | [] \<Rightarrow> [[c]]))"

text \<open>The f-strings of lines 87, 153 and 190: a local part, \<open>@\<close>, the domain.\<close>

definition at_domain :: "pystr \<Rightarrow> pystr \<Rightarrow> pystr" where
  "at_domain local_part domain = local_part @ [AT] @ domain"

section \<open>The standard output\<close>

text \<open>
  The handlers of the module report an exception with \<^verbatim>\<open>print\<close>. Writing to the
  standard output is outside the program and can itself raise (the text cannot be
  encoded, the stream is closed): \<open>write_stdout\<close> gives the exception of
  \<^verbatim>\<open>print(text)\<close>, if any, and \<open>str_exn\<close> the text \<^verbatim>\<open>str(e)\<close> of an exception.
\<close>

record console =
  str_exn :: "exn \<Rightarrow> pystr"
  write_stdout :: "pystr \<Rightarrow> exn option"

text \<open>
  The text of the three reports: a label (\<^verbatim>\<open>Error checking \<close> in line 68,
  \<^verbatim>\<open>Error processing \<close> in lines 223 and 309), the address or domain, a colon and a
  space, and the exception.
\<close>

definition error_text :: "console \<Rightarrow> string \<Rightarrow> pystr \<Rightarrow> exn \<Rightarrow> pystr" where
  "error_text io label subject e = ascii label @ subject @ ascii '': '' @ str_exn io e"

section \<open>The Scout object\<close>

text \<open>The attributes \<^verbatim>\<open>Scout.__init__\<close> stores (lines 35-41).\<close>

record config =
  check_variants :: bool
  check_prefixes :: bool
  check_catchall :: bool
  normalize_opt :: bool
  num_threads :: int
  num_bulk_threads :: int
  smtp_timeout :: int

definition default_config :: config where
  "default_config = \<lparr> check_variants = True, check_prefixes = True, check_catchall = True,
     normalize_opt = True, num_threads = 5, num_bulk_threads = 1, smtp_timeout = 2 \<rparr>"

section \<open>The SMTP probe: \<^verbatim>\<open>check_smtp\<close> (lines 45-69)\<close>

text \<open>
  The network is outside the program. Each library call of the probe is a function of
  the network that either raises or answers: the MX lookup, opening the connection
  (host, port, timeout), EHLO, MAIL FROM, RCPT TO (which answers with the reply code)
  and the QUIT that leaving the \<^verbatim>\<open>with\<close> block sends. The answers do not change
  during one run.
\<close>

type_synonym conn = "pystr \<times> int \<times> int"

record net =
  resolve_mx :: "pystr \<Rightarrow> exn + pystr list"
  smtp_connect :: "conn \<Rightarrow> exn option"
  smtp_ehlo :: "conn \<Rightarrow> exn option"
  smtp_mail :: "conn \<Rightarrow> exn option"
  smtp_rcpt :: "conn \<Rightarrow> pystr \<Rightarrow> exn + int"
  smtp_quit :: "conn \<Rightarrow> exn option"

text \<open>\<^verbatim>\<open>domain = email.split('@')[1]\<close> (line 56).\<close>

definition email_domain :: "pystr \<Rightarrow> exn + pystr" where
  "email_domain email = py_index (split_on AT email) 1"

text \<open>
  Lines 61-64, the body of the \<^verbatim>\<open>with\<close> block: EHLO, MAIL FROM and RCPT TO, whose
  reply code is the value (\<^verbatim>\<open>set_debuglevel\<close> only stores a number).
\<close>

definition with_body :: "net \<Rightarrow> conn \<Rightarrow> pystr \<Rightarrow> exn + int" where
  "with_body nw server email =
     (case smtp_ehlo nw server of
        Some e \<Rightarrow> Inl e
      | None \<Rightarrow>
     (case smtp_mail nw server of
        Some e \<Rightarrow> Inl e
      | None \<Rightarrow> smtp_rcpt nw server email))"

text \<open>
  Lines 58-64, the statements of the \<^verbatim>\<open>try\<close> block up to the end of the \<^verbatim>\<open>with\<close>
  block: the value is the variable \<^verbatim>\<open>code\<close>, or the exception that left the block.
  Once the connection is open, leaving the \<^verbatim>\<open>with\<close> block sends QUIT, also when its
  body has raised, and an exception of the QUIT is the one that leaves the block.
\<close>

definition smtp_dialogue :: "config \<Rightarrow> net \<Rightarrow> pystr \<Rightarrow> int \<Rightarrow> pystr \<Rightarrow> exn + int" where
  "smtp_dialogue cfg nw email port domain =
     (case resolve_mx nw domain of
        Inl e \<Rightarrow> Inl e
      | Inr records \<Rightarrow>
     (case py_index records 0 of
        Inl e \<Rightarrow> Inl e
      | Inr mx_record \<Rightarrow>
     (let server = (mx_record, port, smtp_timeout cfg) in
     (case smtp_connect nw server of
        Some e \<Rightarrow> Inl e
      | None \<Rightarrow>
     (let body = with_body nw server email in
     (case smtp_quit nw server of
        Some e \<Rightarrow> Inl e
      | None \<Rightarrow> body))))))"

text \<open>
  The whole function: the domain is taken before the \<^verbatim>\<open>try\<close>, so its IndexError
  leaves the function; inside, \<^verbatim>\<open>return code == 250\<close>. The handler of lines 67-69
  prints the exception and returns False; an exception of that \<^verbatim>\<open>print\<close> leaves the
  function.
\<close>

definition check_smtp :: "config \<Rightarrow> net \<Rightarrow> console \<Rightarrow> pystr \<Rightarrow> int \<Rightarrow> exn + bool" where
  "check_smtp cfg nw io email port =
     (case email_domain email of
        Inl e \<Rightarrow> Inl e
      | Inr domain \<Rightarrow>
          (case smtp_dialogue cfg nw email port domain of
             Inr code \<Rightarrow> Inr (code = 250)
           | Inl e \<Rightarrow>
               (case write_stdout io (error_text io ''Error checking '' email e) of
                  Some e' \<Rightarrow> Inl e'
                | None \<Rightarrow> Inr False)))"

section \<open>The catch-all detector: \<^verbatim>\<open>check_email_catchall\<close> (lines 73-88)\<close>

text \<open>
  \<open>rnd\<close> is what \<^verbatim>\<open>random.choices(string.ascii_lowercase + string.digits, k=10)\<close>
  drew, joined to a string.
\<close>

definition random_email :: "pystr \<Rightarrow> pystr \<Rightarrow> pystr" where
  "random_email rnd domain = at_domain (rnd @ ascii ''falan'') domain"

definition check_email_catchall :: "config \<Rightarrow> net \<Rightarrow> console \<Rightarrow> pystr \<Rightarrow> pystr \<Rightarrow> exn + bool" where
  "check_email_catchall cfg nw io rnd domain = check_smtp cfg nw io (random_email rnd domain) 25"

section \<open>The name normalizer: \<^verbatim>\<open>normalize_name\<close> (lines 90-118)\<close>

text \<open>
  \<^verbatim>\<open>str.upper\<close>, \<^verbatim>\<open>str.lower\<close>, \<^verbatim>\<open>unidecode\<close> (the third-party package) and
  \<^verbatim>\<open>unicodedata.normalize('NFKD', _)\<close> are table-driven library functions; their tables
  are not part of the repository, so the normalizer takes them as a parameter.
\<close>

record textlib =
  str_upper :: "pystr \<Rightarrow> pystr"
  str_lower :: "pystr \<Rightarrow> pystr"
  unidecode :: "pystr \<Rightarrow> pystr"
  nfkd :: "pystr \<Rightarrow> pystr"

text \<open>The character class \<^verbatim>\<open>[a-zA-Z0-9]\<close> of line 116.\<close>

definition is_alnum :: "pychar \<Rightarrow> bool" where
  "is_alnum c \<longleftrightarrow> (97 \<le> c \<and> c \<le> 122) \<or> (65 \<le> c \<and> c \<le> 90) \<or> (48 \<le> c \<and> c \<le> 57)"

text \<open>\<^verbatim>\<open>s.encode('ascii', 'ignore').decode('ascii')\<close> drops every code point above 127.\<close>

definition ascii_ignore :: "pystr \<Rightarrow> pystr" where
  "ascii_ignore s = filter (\<lambda>c. c < 128) s"

definition normalize_name :: "textlib \<Rightarrow> pystr \<Rightarrow> pystr" where
  "normalize_name lib name0 =
     (let name1 = str_lower lib (str_upper lib name0);
          name2 = unidecode lib name1;
          normalized = nfkd lib name2;
          ascii_encoded = ascii_ignore normalized;
          email_compliant = filter is_alnum ascii_encoded
      in email_compliant)"

section \<open>The candidate generator (lines 121-190)\<close>

definition common_prefixes :: "pystr list" where
  "common_prefixes = map ascii
     [''info'', ''contact'', ''sales'', ''support'', ''admin'',
      ''service'', ''team'', ''hello'', ''marketing'', ''hr'',
      ''office'', ''accounts'', ''billing'', ''careers'', ''jobs'',
      ''press'', ''help'', ''enquiries'', ''management'', ''staff'',
      ''webmaster'', ''administrator'', ''customer'', ''tech'',
      ''finance'', ''legal'', ''compliance'', ''operations'', ''it'',
      ''network'', ''development'', ''research'', ''design'', ''engineering'',
      ''production'', ''purchasing'', ''logistics'', ''training'',
      ''ceo'', ''director'', ''manager'',
      ''executive'', ''agent'', ''representative'', ''partner'',
      ''blog'', ''forum'', ''news'', ''updates'', ''events'',
      ''community'', ''shop'', ''store'', ''feedback'',
      ''media'', ''resource'', ''resources'',
      ''api'', ''dev'', ''developer'', ''status'', ''security'']"

definition generate_prefixes :: "pystr \<Rightarrow> pystr list option \<Rightarrow> pystr list" where
  "generate_prefixes domain custom_prefixes =
     (let prefixes = (case custom_prefixes of Some ps \<Rightarrow> ps | None \<Rightarrow> common_prefixes)
      in map (\<lambda>prefix. at_domain prefix domain) prefixes)"

text \<open>
  \<^verbatim>\<open>itertools.permutations(xs, r)\<close>: the arrangements of \<open>r\<close> positions of \<open>xs\<close>, in
  the order of the positions (elements are told apart by position, not by value).
\<close>

fun permutations :: "'a list \<Rightarrow> nat \<Rightarrow> 'a list list" where
  "permutations xs 0 = [[]]"
| "permutations xs (Suc r) =
     concat (map (\<lambda>i. map ((#) (xs ! i)) (permutations (take i xs @ drop (Suc i) xs) r))
                 [0..<length xs])"

text \<open>\<^verbatim>\<open>sep.join(parts)\<close>.\<close>

fun py_join :: "pystr \<Rightarrow> pystr list \<Rightarrow> pystr" where
  "py_join sep [] = []"
| "py_join sep [p] = p"
| "py_join sep (p # q # ps) = p @ sep @ py_join sep (q # ps)"

text \<open>
  The Python set \<^verbatim>\<open>variants\<close> is kept as a list without repetition, in the order of
  first insertion. Python iterates a set in an order of its own (it depends on the
  hashes); the statements below are about membership, repetition and size only.
\<close>

definition set_add :: "'a \<Rightarrow> 'a list \<Rightarrow> 'a list" where
  "set_add x xs = (if x \<in> set xs then xs else xs @ [x])"

text \<open>The body of the inner loop, lines 182-183.\<close>

definition add_combination :: "pystr list \<Rightarrow> pystr list \<Rightarrow> pystr list" where
  "add_combination variants name_combination =
     set_add (py_join [DOT] name_combination) (set_add (py_join [] name_combination) variants)"

text \<open>The two nested loops, lines 179-183.\<close>

definition add_combinations :: "pystr list \<Rightarrow> pystr list" where
  "add_combinations names =
     foldl (\<lambda>variants r. foldl add_combination variants (permutations names r))
           [] [1..<length names + 1]"

text \<open>The last loop, lines 186-188: \<^verbatim>\<open>name[0]\<close> raises IndexError on an empty name.\<close>

fun add_names :: "pystr list \<Rightarrow> pystr list \<Rightarrow> exn + pystr list" where
  "add_names variants [] = Inr variants"
| "add_names variants (name # names) =
     (case py_index name 0 of
        Inl e \<Rightarrow> Inl e
      | Inr initial \<Rightarrow> add_names (set_add [initial] (set_add name variants)) names)"

text \<open>
  \<^verbatim>\<open>generate_email_variants\<close>. Its argument is a list of strings, so the assertion of
  line 172 holds.
\<close>

definition generate_email_variants :: "textlib \<Rightarrow> pystr list \<Rightarrow> pystr \<Rightarrow> bool \<Rightarrow> exn + pystr list" where
  "generate_email_variants lib names0 domain normalize_arg =
     (let names = (if normalize_arg then map (normalize_name lib) names0 else names0)
      in case add_names (add_combinations names) names of
           Inl e \<Rightarrow> Inl e
         | Inr variants \<Rightarrow> Inr (map (\<lambda>variant. at_domain variant domain) variants))"

section \<open>Sample data for the concrete instances\<close>

text \<open>
  A network in which \<^verbatim>\<open>example.com\<close> has one mail exchanger that accepts two
  mailboxes and rejects every other recipient with 550.
\<close>

definition example_net :: net where
  "example_net = \<lparr>
     resolve_mx = (\<lambda>domain. if domain = ascii ''example.com''
                            then Inr [ascii ''mx.example.com''] else Inl DNSException),
     smtp_connect = (\<lambda>server. None),
     smtp_ehlo = (\<lambda>server. None),
     smtp_mail = (\<lambda>server. None),
     smtp_rcpt = (\<lambda>server email.
        if email = ascii ''info@example.com'' \<or> email = ascii ''ab@example.com''
        then Inr 250 else Inr 550),
     smtp_quit = (\<lambda>server. None) \<rparr>"

text \<open>The same network with a catch-all exchanger: every recipient gets 250.\<close>

definition catchall_net :: net where
  "catchall_net = example_net \<lparr> smtp_rcpt := (\<lambda>server email. Inr 250) \<rparr>"

text \<open>The same network with an exchanger that fails on QUIT.\<close>

definition quit_fails_net :: net where
  "quit_fails_net = example_net \<lparr> smtp_quit := (\<lambda>server. Some SMTPException) \<rparr>"

text \<open>
  A standard output in ASCII encoding (as under \<^verbatim>\<open>PYTHONIOENCODING=ascii\<close>): \<^verbatim>\<open>print\<close>
  raises UnicodeEncodeError on a code point above 127. (Under UTF-8 the same happens on
  a lone surrogate such as U+D800.) The texts of the exceptions are ASCII.
\<close>

definition ascii_console :: console where
  "ascii_console = \<lparr>
     str_exn = (\<lambda>e. ascii ''error''),
     write_stdout = (\<lambda>text. if list_all (\<lambda>c. c < 128) text then None
                              else Some UnicodeEncodeError) \<rparr>"

text \<open>
  A fragment of the text libraries, for the concrete instances: what Python and the
  \<^verbatim>\<open>unidecode\<close> package do on ASCII text and on the two code points U+5317 and
  U+4EB0 of the package's own documentation, which it transliterates to
  \<^verbatim>\<open>'Bei '\<close> and \<^verbatim>\<open>'Jing '\<close>. Both characters have no case, and ASCII text is
  its own NFKD form. Other code points are outside the fragment (dropped here).
\<close>

definition ascii_upper :: "pychar \<Rightarrow> pychar" where
  "ascii_upper c = (if 97 \<le> c \<and> c \<le> 122 then c - 32 else c)"

definition ascii_lower :: "pychar \<Rightarrow> pychar" where
  "ascii_lower c = (if 65 \<le> c \<and> c \<le> 90 then c + 32 else c)"

definition unidecode_fragment :: "pychar \<Rightarrow> pystr" where
  "unidecode_fragment c =
     (if c < 128 then [c]
      else if c = 0x5317 then ascii ''Bei ''
      else if c = 0x4EB0 then ascii ''Jing ''
      else [])"

definition example_textlib :: textlib where
  "example_textlib = \<lparr>
     str_upper = map ascii_upper,
     str_lower = map ascii_lower,
     unidecode = (\<lambda>s. concat (map unidecode_fragment s)),
     nfkd = (\<lambda>s. s) \<rparr>"

section \<open>Counting the variants\<close>

text \<open>The number of arrangements of \<open>r\<close> out of \<open>n\<close> positions: \<open>n! / (n - r)!\<close>.\<close>

fun perm_count :: "nat \<Rightarrow> nat \<Rightarrow> nat" where
  "perm_count n 0 = 1"
| "perm_count n (Suc r) = n * perm_count (n - 1) r"

text \<open>The local parts that the arrangements of length \<open>r\<close> contribute (lines 180-183).\<close>

definition joined :: "pystr list \<Rightarrow> nat \<Rightarrow> pystr set" where
  "joined names r =
     py_join [] ` set (permutations names r) \<union> py_join [DOT] ` set (permutations names r)"

section \<open>The name argument of \<^verbatim>\<open>find_valid_emails\<close>\<close>

text \<open>
  \<^verbatim>\<open>names\<close> is \<^verbatim>\<open>None\<close>, a string, a list of strings or a list of lists of strings.
  The function tells these apart at run time (\<^verbatim>\<open>isinstance\<close>, truthiness), so the
  argument is a Python value; an ill-shaped value meets the assertion of line 237 or an
  AttributeError of \<^verbatim>\<open>split\<close>.
\<close>

datatype pyval = PNone | PStr pystr | PList "pyval list"

fun truthy :: "pyval \<Rightarrow> bool" where
  "truthy PNone = False"
| "truthy (PStr s) = (s \<noteq> [])"
| "truthy (PList l) = (l \<noteq> [])"

text \<open>\<^verbatim>\<open>split_list_data\<close> (lines 339-343).\<close>

fun split_list_data :: "pyval list \<Rightarrow> exn + pystr list" where
  "split_list_data [] = Inr []"
| "split_list_data (PStr s # target) =
     (case split_list_data target of
        Inl e \<Rightarrow> Inl e
      | Inr new_target \<Rightarrow> Inr (split_on SPACE s @ new_target))"
| "split_list_data (i # target) = Inl AttributeError"

section \<open>The candidates of one domain check (lines 227-247)\<close>

text \<open>The loop of lines 236-239; the last argument is \<^verbatim>\<open>email_variants\<close> so far.\<close>

fun variants_of_lists :: "config \<Rightarrow> textlib \<Rightarrow> pystr \<Rightarrow> pyval list \<Rightarrow> pystr list \<Rightarrow> exn + pystr list" where
  "variants_of_lists cfg lib domain [] email_variants = Inr email_variants"
| "variants_of_lists cfg lib domain (PList name_list # rest) email_variants =
     (case split_list_data name_list of
        Inl e \<Rightarrow> Inl e
      | Inr tokens \<Rightarrow>
     (case generate_email_variants lib tokens domain (normalize_opt cfg) of
        Inl e \<Rightarrow> Inl e
      | Inr vs \<Rightarrow> variants_of_lists cfg lib domain rest (email_variants @ vs)))"
| "variants_of_lists cfg lib domain (name_list # rest) email_variants = Inl AssertionError"

text \<open>
  Lines 233-242, entered when \<^verbatim>\<open>names\<close> is truthy: the value is \<^verbatim>\<open>email_variants\<close>
  together with the value the variable \<^verbatim>\<open>names\<close> holds afterwards (line 244 reads it).
\<close>

fun variants_of_list :: "config \<Rightarrow> textlib \<Rightarrow> pystr \<Rightarrow> pyval list \<Rightarrow> exn + (pystr list \<times> pyval)" where
  "variants_of_list cfg lib domain (PList name_list # rest) =
     (case variants_of_lists cfg lib domain (PList name_list # rest) [] of
        Inl e \<Rightarrow> Inl e
      | Inr email_variants \<Rightarrow> Inr (email_variants, PList (PList name_list # rest)))"
| "variants_of_list cfg lib domain names =
     (case split_list_data names of
        Inl e \<Rightarrow> Inl e
      | Inr tokens \<Rightarrow>
     (case generate_email_variants lib tokens domain (normalize_opt cfg) of
        Inl e \<Rightarrow> Inl e
      | Inr email_variants \<Rightarrow> Inr (email_variants, PList (map PStr tokens))))"

fun variants_of_names :: "config \<Rightarrow> textlib \<Rightarrow> pystr \<Rightarrow> pyval \<Rightarrow> exn + (pystr list \<times> pyval)" where
  "variants_of_names cfg lib domain (PStr s) =
     variants_of_list cfg lib domain (map PStr (split_on SPACE s))"
| "variants_of_names cfg lib domain (PList names) = variants_of_list cfg lib domain names"
| "variants_of_names cfg lib domain PNone = Inl TypeError"

text \<open>\<^verbatim>\<open>all_emails\<close> of line 247.\<close>

definition all_emails :: "config \<Rightarrow> textlib \<Rightarrow> pystr \<Rightarrow> pyval \<Rightarrow> exn + pystr list" where
  "all_emails cfg lib domain names0 =
     (case (if check_variants cfg \<and> truthy names0
            then variants_of_names cfg lib domain names0
            else Inr ([], names0)) of
        Inl e \<Rightarrow> Inl e
      | Inr (email_variants, names) \<Rightarrow>
          (let generated_mails =
                 (if check_prefixes cfg \<and> \<not> truthy names
                  then generate_prefixes domain None else [])
           in Inr (email_variants @ generated_mails)))"

section \<open>The worker pool (lines 214-225 and 249-272; lines 294-337 for the bulk pool)\<close>

text \<open>
  Both schedulers are the same program over a FIFO queue: the main thread starts the
  workers, puts the items, waits in \<^verbatim>\<open>q.join()\<close> until the count of unfinished tasks
  is zero, puts one \<^verbatim>\<open>None\<close> per worker, joins the threads in order and returns the
  shared result list. A worker takes an item (waiting while the queue is empty), stops
  on \<^verbatim>\<open>None\<close>, else runs the body of its \<^verbatim>\<open>try\<close> and then calls \<^verbatim>\<open>q.task_done()\<close>.
  The threads interleave: a run is the list of the threads in the order in which they
  take their steps, and a thread that is waiting when its turn comes does nothing.
\<close>

text \<open>
  What the \<^verbatim>\<open>try\<close> statement of a worker does with an item: it appends a result; it
  appends nothing (also when its handler has caught and printed an exception); the
  \<^verbatim>\<open>print\<close> of its handler raises, so that the exception leaves the worker function
  after the \<^verbatim>\<open>finally\<close> clause and the thread ends; or it never comes back.
\<close>

datatype 'r body = Append 'r | Skip | Crash | Hang

text \<open>
  A worker waits in \<^verbatim>\<open>q.get()\<close>, holds an item, is about to call \<^verbatim>\<open>q.task_done()\<close>
  and go on, is about to call \<^verbatim>\<open>q.task_done()\<close> and end with an exception, or has
  ended.
\<close>

datatype 'a worker = Idle | Got 'a | Finishing | Failing | Stopped

datatype 'a main_pc = Starting nat | Putting "'a list" | Joining | Stopping nat
  | JoinThreads nat | Returned

datatype thread = MainThread | WorkerThread nat

record ('a, 'r) pool =
  queue :: "'a option list"
  unfinished :: nat
  workers :: "'a worker list"
  results :: "'r list"
  processed :: "'a list"
  pc :: "'a main_pc"

definition pool_init :: "nat \<Rightarrow> ('a, 'r) pool" where
  "pool_init n = \<lparr> queue = [], unfinished = 0, workers = [], results = [], processed = [],
     pc = Starting n \<rparr>"

text \<open>One step of the main thread; None when it waits (or has returned).\<close>

fun main_step :: "nat \<Rightarrow> 'a list \<Rightarrow> ('a, 'r) pool \<Rightarrow> 'a main_pc \<Rightarrow> ('a, 'r) pool option" where
  "main_step n items s (Starting (Suc k)) =
     Some (s\<lparr>workers := workers s @ [Idle], pc := Starting k\<rparr>)"
| "main_step n items s (Starting 0) = Some (s\<lparr>pc := Putting items\<rparr>)"
| "main_step n items s (Putting (x # xs)) =
     Some (s\<lparr>queue := queue s @ [Some x], unfinished := unfinished s + 1, pc := Putting xs\<rparr>)"
| "main_step n items s (Putting []) = Some (s\<lparr>pc := Joining\<rparr>)"
| "main_step n items s Joining =
     (if unfinished s = 0 then Some (s\<lparr>pc := Stopping n\<rparr>) else None)"
| "main_step n items s (Stopping (Suc k)) =
     Some (s\<lparr>queue := queue s @ [None], unfinished := unfinished s + 1, pc := Stopping k\<rparr>)"
| "main_step n items s (Stopping 0) = Some (s\<lparr>pc := JoinThreads 0\<rparr>)"
| "main_step n items s (JoinThreads i) =
     (if i < length (workers s)
      then (if workers s ! i = Stopped then Some (s\<lparr>pc := JoinThreads (Suc i)\<rparr>) else None)
      else Some (s\<lparr>pc := Returned\<rparr>))"
| "main_step n items s Returned = None"

text \<open>
  One step of worker \<open>i\<close>: \<^verbatim>\<open>q.get()\<close>, the \<^verbatim>\<open>try\<close> statement up to its
  \<^verbatim>\<open>finally\<close> clause (the result list and the list of processed items grow in the same
  step), or \<^verbatim>\<open>q.task_done()\<close>, after which the worker takes the next item or, when its
  handler has raised, ends.
\<close>

fun worker_step :: "('a \<Rightarrow> 'r body) \<Rightarrow> nat \<Rightarrow> ('a, 'r) pool \<Rightarrow> 'a worker \<Rightarrow> ('a, 'r) pool option" where
  "worker_step f i s Idle =
     (case queue s of
        [] \<Rightarrow> None
      | None # q \<Rightarrow> Some (s\<lparr>queue := q, workers := (workers s)[i := Stopped]\<rparr>)
      | Some x # q \<Rightarrow> Some (s\<lparr>queue := q, workers := (workers s)[i := Got x]\<rparr>))"
| "worker_step f i s (Got x) =
     (case f x of
        Hang \<Rightarrow> None
      | Skip \<Rightarrow> Some (s\<lparr>processed := processed s @ [x], workers := (workers s)[i := Finishing]\<rparr>)
      | Crash \<Rightarrow> Some (s\<lparr>processed := processed s @ [x], workers := (workers s)[i := Failing]\<rparr>)
      | Append r \<Rightarrow> Some (s\<lparr>results := results s @ [r], processed := processed s @ [x],
                              workers := (workers s)[i := Finishing]\<rparr>))"
| "worker_step f i s Finishing =
     Some (s\<lparr>unfinished := unfinished s - 1, workers := (workers s)[i := Idle]\<rparr>)"
| "worker_step f i s Failing =
     Some (s\<lparr>unfinished := unfinished s - 1, workers := (workers s)[i := Stopped]\<rparr>)"
| "worker_step f i s Stopped = None"

definition pool_step :: "('a \<Rightarrow> 'r body) \<Rightarrow> nat \<Rightarrow> 'a list \<Rightarrow> thread \<Rightarrow> ('a, 'r) pool \<Rightarrow> ('a, 'r) pool option" where
  "pool_step f n items th s =
     (case th of
        MainThread \<Rightarrow> main_step n items s (pc s)
      | WorkerThread i \<Rightarrow>
          (if i < length (workers s) then worker_step f i s (workers s ! i) else None))"

text \<open>A run under a schedule.\<close>

fun run_pool :: "('a \<Rightarrow> 'r body) \<Rightarrow> nat \<Rightarrow> 'a list \<Rightarrow> thread list \<Rightarrow> ('a, 'r) pool \<Rightarrow> ('a, 'r) pool" where
  "run_pool f n items [] s = s"
| "run_pool f n items (th # sched) s =
     run_pool f n items sched (case pool_step f n items th s of Some s' \<Rightarrow> s' | None \<Rightarrow> s)"

text \<open>
  What a call does under a schedule: it returns a value, an exception leaves it, or it
  has not returned when the schedule ends.
\<close>

datatype 'a outcome = Returns 'a | Raises exn | Blocked

definition pool_outcome :: "('a, 'r) pool \<Rightarrow> 'r list outcome" where
  "pool_outcome s = (if pc s = Returned then Returns (results s) else Blocked)"

section \<open>The verification scheduler: \<^verbatim>\<open>find_valid_emails\<close> (lines 193-272)\<close>

text \<open>
  The \<^verbatim>\<open>try\<close> statement of the worker (lines 219-223): an exception of \<^verbatim>\<open>check_smtp\<close>
  is caught and printed with the domain of the call; when that \<^verbatim>\<open>print\<close> raises, the
  worker ends.
\<close>

definition probe :: "config \<Rightarrow> net \<Rightarrow> console \<Rightarrow> pystr \<Rightarrow> pystr \<Rightarrow> pystr body" where
  "probe cfg nw io domain email =
     (case check_smtp cfg nw io email 25 of
        Inr True \<Rightarrow> Append email
      | Inr False \<Rightarrow> Skip
      | Inl e \<Rightarrow>
          (case write_stdout io (error_text io ''Error processing '' domain e) of
             None \<Rightarrow> Skip
           | Some e' \<Rightarrow> Crash))"

text \<open>
  Lines 227-272: the candidates, then the pool of \<^verbatim>\<open>num_threads\<close> workers
  (\<^verbatim>\<open>range(num_threads)\<close> is empty when the number is zero or negative).
\<close>

definition verify_candidates :: "config \<Rightarrow> textlib \<Rightarrow> net \<Rightarrow> console \<Rightarrow> thread list \<Rightarrow> pystr
    \<Rightarrow> pyval \<Rightarrow> pystr list outcome \<times> pystr list" where
  "verify_candidates cfg lib nw io sched domain names =
     (case all_emails cfg lib domain names of
        Inl e \<Rightarrow> (Raises e, [])
      | Inr emails \<Rightarrow>
          (let n = nat (num_threads cfg);
               s = run_pool (probe cfg nw io domain) n emails sched (pool_init n)
           in (pool_outcome s, processed s)))"

text \<open>
  The whole function. The second component lists the addresses \<^verbatim>\<open>check_smtp\<close> was
  called on, in the order of the calls. \<open>rnd\<close> is the random draw of the catch-all check,
  \<open>sched\<close> the schedule of the threads.
\<close>

definition find_valid_emails :: "config \<Rightarrow> textlib \<Rightarrow> net \<Rightarrow> console \<Rightarrow> pystr \<Rightarrow> thread list
    \<Rightarrow> pystr \<Rightarrow> pyval \<Rightarrow> pystr list outcome \<times> pystr list" where
  "find_valid_emails cfg lib nw io rnd sched domain names =
     (if check_catchall cfg
      then (case check_email_catchall cfg nw io rnd domain of
              Inl e \<Rightarrow> (Raises e, [random_email rnd domain])
            | Inr True \<Rightarrow> (Returns [], [random_email rnd domain])
            | Inr False \<Rightarrow>
                (case verify_candidates cfg lib nw io sched domain names of
                   (out, probed) \<Rightarrow> (out, random_email rnd domain # probed)))
      else verify_candidates cfg lib nw io sched domain names)"

section \<open>The bulk scheduler: \<^verbatim>\<open>find_valid_emails_bulk\<close> (lines 276-337)\<close>

text \<open>
  A job is a dictionary with the key \<^verbatim>\<open>domain\<close> and, optionally, the key \<^verbatim>\<open>names\<close>;
  two jobs are equal when they agree on both.
\<close>

record job =
  job_domain :: pystr
  job_names :: "pyval option"

record bulk_result =
  result_domain :: pystr
  result_names :: pyval
  valid_emails :: "pystr list"

text \<open>Line 291: an entry stays when no later entry equals it.\<close>

fun email_data_clean :: "'a list \<Rightarrow> 'a list" where
  "email_data_clean [] = []"
| "email_data_clean (i # rest) =
     (if i \<in> set rest then email_data_clean rest else i # email_data_clean rest)"

text \<open>
  The \<^verbatim>\<open>try\<close> statement of the bulk worker (lines 299-309). \<open>choices\<close> gives, for
  each job, the random draw and the thread schedule of its single-domain run. An
  exception of the run is caught and printed with the job's domain; when that \<^verbatim>\<open>print\<close>
  raises, the bulk worker ends.
\<close>

definition bulk_body :: "config \<Rightarrow> textlib \<Rightarrow> net \<Rightarrow> console \<Rightarrow> (job \<Rightarrow> pystr \<times> thread list)
    \<Rightarrow> job \<Rightarrow> bulk_result body" where
  "bulk_body cfg lib nw io choices data =
     (let domain = job_domain data;
          names = (case job_names data of None \<Rightarrow> PList [] | Some v \<Rightarrow> v)
      in case fst (find_valid_emails cfg lib nw io (fst (choices data)) (snd (choices data))
                     domain names) of
           Returns valid \<Rightarrow>
             Append \<lparr> result_domain = domain, result_names = names, valid_emails = valid \<rparr>
         | Raises e \<Rightarrow>
             (case write_stdout io (error_text io ''Error processing '' domain e) of
                None \<Rightarrow> Skip
              | Some e' \<Rightarrow> Crash)
         | Blocked \<Rightarrow> Hang)"

definition find_valid_emails_bulk :: "config \<Rightarrow> textlib \<Rightarrow> net \<Rightarrow> console
    \<Rightarrow> (job \<Rightarrow> pystr \<times> thread list) \<Rightarrow> thread list \<Rightarrow> job list \<Rightarrow> bulk_result list outcome" where
  "find_valid_emails_bulk cfg lib nw io choices sched email_data =
     (let n = nat (num_bulk_threads cfg)
      in pool_outcome (run_pool (bulk_body cfg lib nw io choices) n
                         (email_data_clean email_data) sched (pool_init n)))"

text \<open>
  A sample schedule: \<open>k\<close> rounds in which the main thread and then each of the workers
  \<open>0, \<dots>, n - 1\<close> get a turn.
\<close>

definition round_robin :: "nat \<Rightarrow> nat \<Rightarrow> thread list" where
  "round_robin n k = concat (replicate k (MainThread # map WorkerThread [0..<n]))"

section \<open>Invariants of the worker pool\<close>

text \<open>The items waiting in the queue, and the number of \<^verbatim>\<open>None\<close> sentinels in it.\<close>

fun queued :: "'a option list \<Rightarrow> 'a list" where
  "queued [] = []"
| "queued (None # q) = queued q"
| "queued (Some x # q) = x # queued q"

fun sentinels :: "'a option list \<Rightarrow> nat" where
  "sentinels [] = 0"
| "sentinels (None # q) = Suc (sentinels q)"
| "sentinels (Some x # q) = sentinels q"

text \<open>What a worker holds: the item it took and has not yet processed.\<close>

fun held :: "'a worker \<Rightarrow> 'a multiset" where
  "held (Got x) = {#x#}"
| "held w = {#}"

text \<open>A worker between \<^verbatim>\<open>q.get()\<close> and \<^verbatim>\<open>q.task_done()\<close> counts as busy.\<close>

fun busy :: "'a worker \<Rightarrow> nat" where
  "busy (Got x) = 1"
| "busy Finishing = 1"
| "busy Failing = 1"
| "busy w = 0"

fun halted :: "'a worker \<Rightarrow> nat" where
  "halted Stopped = 1"
| "halted w = 0"

fun failing :: "'a worker \<Rightarrow> nat" where
  "failing Failing = 1"
| "failing w = 0"

definition in_hand :: "'a worker list \<Rightarrow> 'a multiset" where
  "in_hand ws = sum_list (map held ws)"

definition busy_count :: "'a worker list \<Rightarrow> nat" where
  "busy_count ws = sum_list (map busy ws)"

definition halted_count :: "'a worker list \<Rightarrow> nat" where
  "halted_count ws = sum_list (map halted ws)"

definition failing_count :: "'a worker list \<Rightarrow> nat" where
  "failing_count ws = sum_list (map failing ws)"

text \<open>The items the main thread has still to put.\<close>

fun to_put :: "'a list \<Rightarrow> 'a main_pc \<Rightarrow> 'a list" where
  "to_put items (Starting k) = items"
| "to_put items (Putting xs) = xs"
| "to_put items p = []"

text \<open>What the body appends for an item, if anything.\<close>

fun appended :: "('a \<Rightarrow> 'r body) \<Rightarrow> 'a \<Rightarrow> 'r option" where
  "appended f x = (case f x of Append r \<Rightarrow> Some r | Skip \<Rightarrow> None | Crash \<Rightarrow> None | Hang \<Rightarrow> None)"

text \<open>
  What holds in each phase of the main thread: which workers exist, that no sentinel
  is in the queue before \<^verbatim>\<open>q.join()\<close> has passed, that the count of unfinished tasks
  is the number of queued items plus the busy workers, and that after \<^verbatim>\<open>q.join()\<close>
  no item is queued and no worker is busy.
\<close>

fun phase_inv :: "nat \<Rightarrow> ('a, 'r) pool \<Rightarrow> 'a main_pc \<Rightarrow> bool" where
  "phase_inv n s (Starting k) \<longleftrightarrow>
     k \<le> n \<and> length (workers s) = n - k \<and> queue s = [] \<and> unfinished s = 0 \<and>
     busy_count (workers s) = 0 \<and> halted_count (workers s) = 0"
| "phase_inv n s (Putting xs) \<longleftrightarrow>
     length (workers s) = n \<and> sentinels (queue s) = 0 \<and>
     unfinished s = length (queued (queue s)) + busy_count (workers s)"
| "phase_inv n s Joining \<longleftrightarrow>
     length (workers s) = n \<and> sentinels (queue s) = 0 \<and>
     unfinished s = length (queued (queue s)) + busy_count (workers s)"
| "phase_inv n s (Stopping k) \<longleftrightarrow>
     k \<le> n \<and> length (workers s) = n \<and> queued (queue s) = [] \<and>
     busy_count (workers s) = 0"
| "phase_inv n s (JoinThreads i) \<longleftrightarrow>
     length (workers s) = n \<and> queued (queue s) = [] \<and> busy_count (workers s) = 0"
| "phase_inv n s Returned \<longleftrightarrow>
     length (workers s) = n \<and> queued (queue s) = [] \<and> busy_count (workers s) = 0"

text \<open>
  The invariant of a run: the phase facts, the result list is what the body appended
  for the processed items (in their order), and every item is in exactly one place:
  processed, held by a worker, queued, or still to put.
\<close>

definition pool_inv :: "('a \<Rightarrow> 'r body) \<Rightarrow> nat \<Rightarrow> 'a list \<Rightarrow> ('a, 'r) pool \<Rightarrow> bool" where
  "pool_inv f n items s \<longleftrightarrow>
     phase_inv n s (pc s) \<and>
     results s = List.map_filter (appended f) (processed s) \<and>
     mset (processed s) + in_hand (workers s) + mset (queued (queue s))
       + mset (to_put items (pc s)) = mset items"

text \<open>
  What holds in addition as long as no handler's \<^verbatim>\<open>print\<close> has raised: a worker ends
  only on a sentinel, so every sentinel put so far is in the queue or has stopped a
  worker.
\<close>

fun calm_phase :: "nat \<Rightarrow> ('a, 'r) pool \<Rightarrow> 'a main_pc \<Rightarrow> bool" where
  "calm_phase n s (Starting k) \<longleftrightarrow> True"
| "calm_phase n s (Putting xs) \<longleftrightarrow>
     halted_count (workers s) = 0 \<and> failing_count (workers s) = 0"
| "calm_phase n s Joining \<longleftrightarrow>
     halted_count (workers s) = 0 \<and> failing_count (workers s) = 0"
| "calm_phase n s (Stopping k) \<longleftrightarrow>
     sentinels (queue s) + halted_count (workers s) = n - k"
| "calm_phase n s (JoinThreads i) \<longleftrightarrow>
     sentinels (queue s) + halted_count (workers s) = n"
| "calm_phase n s Returned \<longleftrightarrow>
     sentinels (queue s) + halted_count (workers s) = n"

definition calm :: "nat \<Rightarrow> ('a, 'r) pool \<Rightarrow> bool" where
  "calm n s \<longleftrightarrow> calm_phase n s (pc s)"

text \<open>A bound on the steps still to come: each step of a thread lowers it.\<close>

fun main_weight :: "nat \<Rightarrow> nat \<Rightarrow> 'a main_pc \<Rightarrow> nat" where
  "main_weight n l (Starting k) = k + 4 * l + 3 * n + 5"
| "main_weight n l (Putting xs) = 4 * length xs + 3 * n + 4"
| "main_weight n l Joining = 3 * n + 3"
| "main_weight n l (Stopping k) = 2 * k + n + 2"
| "main_weight n l (JoinThreads i) = (n - i) + 1"
| "main_weight n l Returned = 0"

fun worker_weight :: "'a worker \<Rightarrow> nat" where
  "worker_weight (Got x) = 2"
| "worker_weight Finishing = 1"
| "worker_weight Failing = 1"
| "worker_weight w = 0"

definition work_left :: "'a worker list \<Rightarrow> nat" where
  "work_left ws = sum_list (map worker_weight ws)"

definition pool_measure :: "nat \<Rightarrow> 'a list \<Rightarrow> ('a, 'r) pool \<Rightarrow> nat" where
  "pool_measure n items s =
     main_weight n (length items) (pc s) + 3 * length (queued (queue s)) + sentinels (queue s)
       + work_left (workers s)"


text \<open>
  When every item ends the worker that takes it, each processed item has cost a worker.
\<close>

definition crash_inv :: "('a, 'r) pool \<Rightarrow> bool" where
  "crash_inv s \<longleftrightarrow>
     length (processed s) \<le> halted_count (workers s) + failing_count (workers s)"

text \<open>
  Fair schedules: a round gives the main thread and each of the \<open>n\<close> workers at least
  one turn, in any order and with any repetition.
\<close>

definition full_round :: "nat \<Rightarrow> thread list \<Rightarrow> bool" where
  "full_round n round \<longleftrightarrow> list_all (\<lambda>th. th \<in> set round) (MainThread # map WorkerThread [0..<n])"



text \<open>Two calls end the same way: the same exception, or the same results up to order.\<close>

fun same_ending :: "pystr list outcome \<Rightarrow> pystr list outcome \<Rightarrow> bool" where
  "same_ending (Returns valid) (Returns valid') = (mset valid = mset valid')"
| "same_ending (Raises e) (Raises e') = (e = e')"
| "same_ending Blocked Blocked = True"
| "same_ending out out' = False"




text \<open>
  What the single-domain run of a job does (lines 300-306): \<^verbatim>\<open>find_valid_emails\<close> on
  the job's domain and names, \<^verbatim>\<open>[]\<close> when the job has no \<^verbatim>\<open>names\<close> key.
\<close>

definition job_outcome :: "config \<Rightarrow> textlib \<Rightarrow> net \<Rightarrow> console \<Rightarrow> (job \<Rightarrow> pystr \<times> thread list)
    \<Rightarrow> job \<Rightarrow> pystr list outcome" where
  "job_outcome cfg lib nw io choices data =
     fst (find_valid_emails cfg lib nw io (fst (choices data)) (snd (choices data))
            (job_domain data) (case job_names data of None \<Rightarrow> PList [] | Some v \<Rightarrow> v))"

text \<open>
  A job is in order when its run comes back and, if it raises, the report of the bulk
  worker's handler (line 309) goes through.
\<close>

definition bulk_job_ok :: "config \<Rightarrow> textlib \<Rightarrow> net \<Rightarrow> console \<Rightarrow> (job \<Rightarrow> pystr \<times> thread list)
    \<Rightarrow> job \<Rightarrow> bool" where
  "bulk_job_ok cfg lib nw io choices data =
     (case job_outcome cfg lib nw io choices data of
        Returns valid \<Rightarrow> True
      | Raises e \<Rightarrow>
          write_stdout io (error_text io ''Error processing '' (job_domain data) e) = None
      | Blocked \<Rightarrow> False)"

text \<open>Three sample jobs, the first and the last equal; a job whose name has two spaces.\<close>

definition example_jobs :: "job list" where
  "example_jobs =
     [\<lparr> job_domain = ascii ''example.com'', job_names = Some (PStr (ascii ''Ab'')) \<rparr>,
      \<lparr> job_domain = ascii ''example.com'', job_names = Some (PList [PStr (ascii ''cd'')]) \<rparr>,
      \<lparr> job_domain = ascii ''example.com'', job_names = Some (PStr (ascii ''Ab'')) \<rparr>]"

definition example_choices :: "job \<Rightarrow> pystr \<times> thread list" where
  "example_choices data = (ascii ''k3x9q2m7p1'', round_robin 5 30)"

definition failing_job :: job where
  "failing_job = \<lparr> job_domain = ascii ''example.com'',
                    job_names = Some (PStr (ascii ''John  Smith'')) \<rparr>"

text \<open>Two jobs on a domain that an ASCII standard output cannot print.\<close>

definition unprintable_jobs :: "job list" where
  "unprintable_jobs =
     [\<lparr> job_domain = 233 # ascii ''.example'', job_names = None \<rparr>,
      \<lparr> job_domain = 233 # ascii ''.example'', job_names = Some (PStr (ascii ''Ab'')) \<rparr>]"

text \<open>
  Text libraries that leave ASCII letters and digits alone apart from their case: on
  such text \<^verbatim>\<open>upper\<close> followed by \<^verbatim>\<open>lower\<close> is the ASCII lower-casing, and
  \<^verbatim>\<open>unidecode\<close> and NFKD change nothing. Python's and the package's do.
\<close>

definition ascii_transparent :: "textlib \<Rightarrow> bool" where
  "ascii_transparent lib \<longleftrightarrow>
     (\<forall>s. list_all is_alnum s \<longrightarrow>
        str_lower lib (str_upper lib s) = map ascii_lower s \<and>
        unidecode lib (map ascii_lower s) = map ascii_lower s \<and>
        nfkd lib (map ascii_lower s) = map ascii_lower s)"

text \<open>The shape of line 235: a non-empty list whose first element is a list.\<close>

fun nested :: "pyval \<Rightarrow> bool" where
  "nested (PList (PList name_list # rest)) = True"
| "nested names = False"

section \<open>Facts about splitting\<close>

lemma split_on_not_Nil: "split_on sep s \<noteq> []"
  by (induction s) (auto split: list.splits)

lemma length_split_on: "length (split_on sep s) = Suc (count_list s sep)"
proof (induction s)
  case Nil
  show ?case by simp
next
  case (Cons c cs)
  then show ?case
    by (cases "split_on sep cs") (auto simp: split_on_not_Nil)
qed

lemma split_on_has_second: "1 < length (split_on sep s) \<longleftrightarrow> sep \<in> set s"
  using count_list_0_iff [of s sep] by (auto simp: length_split_on)


lemma email_domain_Inr: "AT \<in> set email \<Longrightarrow> \<exists>d. email_domain email = Inr d"
  using split_on_has_second [of AT email] by (simp add: email_domain_def py_index_def)

section \<open>The SMTP probe\<close>

text \<open>
  The dialogue yields a reply code exactly when every step went through, and the code
  is then the answer to RCPT TO.
\<close>

lemma smtp_dialogue_Inr_iff:
  "smtp_dialogue cfg nw email port domain = Inr code \<longleftrightarrow>
     (\<exists>records mx_record.
        resolve_mx nw domain = Inr records \<and> py_index records 0 = Inr mx_record \<and>
        smtp_connect nw (mx_record, port, smtp_timeout cfg) = None \<and>
        smtp_ehlo nw (mx_record, port, smtp_timeout cfg) = None \<and>
        smtp_mail nw (mx_record, port, smtp_timeout cfg) = None \<and>
        smtp_rcpt nw (mx_record, port, smtp_timeout cfg) email = Inr code \<and>
        smtp_quit nw (mx_record, port, smtp_timeout cfg) = None)"
  by (auto simp: smtp_dialogue_def with_body_def Let_def split: sum.splits option.splits)

text \<open>
  An exception leaves the dialogue exactly when the MX lookup, the first record or the
  connection raises it, or, with the connection open, the QUIT raises it, or the QUIT
  goes through and the first step of the body that fails raises it.
\<close>

lemma smtp_dialogue_Inl_iff:
  "smtp_dialogue cfg nw email port domain = Inl e \<longleftrightarrow>
     (resolve_mx nw domain = Inl e \<or>
      (\<exists>records. resolve_mx nw domain = Inr records \<and>
         (py_index records 0 = Inl e \<or>
          (\<exists>mx_record. py_index records 0 = Inr mx_record \<and>
             (smtp_connect nw (mx_record, port, smtp_timeout cfg) = Some e \<or>
              smtp_connect nw (mx_record, port, smtp_timeout cfg) = None \<and>
              (smtp_quit nw (mx_record, port, smtp_timeout cfg) = Some e \<or>
               smtp_quit nw (mx_record, port, smtp_timeout cfg) = None \<and>
               (smtp_ehlo nw (mx_record, port, smtp_timeout cfg) = Some e \<or>
                smtp_ehlo nw (mx_record, port, smtp_timeout cfg) = None \<and>
                (smtp_mail nw (mx_record, port, smtp_timeout cfg) = Some e \<or>
                 smtp_mail nw (mx_record, port, smtp_timeout cfg) = None \<and>
                 smtp_rcpt nw (mx_record, port, smtp_timeout cfg) email = Inl e))))))))"
  by (auto simp: smtp_dialogue_def with_body_def Let_def split: sum.splits option.splits)

lemma email_domain_example:
  "email_domain (ascii ''info@example.com'') = Inr (ascii ''example.com'')"
  by (simp add: email_domain_def py_index_def ascii_def)

lemma email_domain_example_org:
  "email_domain (ascii ''info@example.org'') = Inr (ascii ''example.org'')"
  by (simp add: email_domain_def py_index_def ascii_def)

text \<open>
  C2, as the code has it. For an address that contains \<open>@\<close>, with the domain taken
  after the first \<open>@\<close>: \<^verbatim>\<open>check_smtp\<close> returns True exactly when the MX lookup gave a
  first exchanger, the connection, EHLO and MAIL FROM went through, RCPT TO was answered
  with 250 and the QUIT of leaving the \<^verbatim>\<open>with\<close> block went through; with every step
  through it returns whether the code is 250; and when a step raises, at whichever
  place (the QUIT is sent on every way out of the \<^verbatim>\<open>with\<close> block, and its exception
  is then the one that is caught), the exception is caught and printed and the function
  returns False, unless the \<^verbatim>\<open>print\<close> raises: then that exception leaves the
  function. So the function always returns a boolean or raises what its \<^verbatim>\<open>print\<close>
  has raised.
\<close>

theorem check_smtp_true_iff_250:
  assumes "AT \<in> set email"
  shows "\<exists>domain. email_domain email = Inr domain \<and>
     (check_smtp cfg nw io email port = Inr True \<longleftrightarrow>
        (\<exists>records mx_record.
           resolve_mx nw domain = Inr records \<and> py_index records 0 = Inr mx_record \<and>
           smtp_connect nw (mx_record, port, smtp_timeout cfg) = None \<and>
           smtp_ehlo nw (mx_record, port, smtp_timeout cfg) = None \<and>
           smtp_mail nw (mx_record, port, smtp_timeout cfg) = None \<and>
           smtp_rcpt nw (mx_record, port, smtp_timeout cfg) email = Inr 250 \<and>
           smtp_quit nw (mx_record, port, smtp_timeout cfg) = None)) \<and>
     (\<forall>records mx_record code.
        resolve_mx nw domain = Inr records \<and> py_index records 0 = Inr mx_record \<and>
        smtp_connect nw (mx_record, port, smtp_timeout cfg) = None \<and>
        smtp_ehlo nw (mx_record, port, smtp_timeout cfg) = None \<and>
        smtp_mail nw (mx_record, port, smtp_timeout cfg) = None \<and>
        smtp_rcpt nw (mx_record, port, smtp_timeout cfg) email = Inr code \<and>
        smtp_quit nw (mx_record, port, smtp_timeout cfg) = None
        \<longrightarrow> check_smtp cfg nw io email port = Inr (code = 250)) \<and>
     (\<forall>e. (resolve_mx nw domain = Inl e \<or>
           (\<exists>records. resolve_mx nw domain = Inr records \<and>
              (py_index records 0 = Inl e \<or>
               (\<exists>mx_record. py_index records 0 = Inr mx_record \<and>
                  (smtp_connect nw (mx_record, port, smtp_timeout cfg) = Some e \<or>
                   smtp_connect nw (mx_record, port, smtp_timeout cfg) = None \<and>
                   (smtp_quit nw (mx_record, port, smtp_timeout cfg) = Some e \<or>
                    smtp_quit nw (mx_record, port, smtp_timeout cfg) = None \<and>
                    (smtp_ehlo nw (mx_record, port, smtp_timeout cfg) = Some e \<or>
                     smtp_ehlo nw (mx_record, port, smtp_timeout cfg) = None \<and>
                     (smtp_mail nw (mx_record, port, smtp_timeout cfg) = Some e \<or>
                      smtp_mail nw (mx_record, port, smtp_timeout cfg) = None \<and>
                      smtp_rcpt nw (mx_record, port, smtp_timeout cfg) email = Inl e))))))))
        \<longrightarrow> check_smtp cfg nw io email port =
              (case write_stdout io (error_text io ''Error checking '' email e) of
                 None \<Rightarrow> Inr False
               | Some e' \<Rightarrow> Inl e')) \<and>
     ((\<exists>b. check_smtp cfg nw io email port = Inr b) \<or>
      (\<exists>e e'. write_stdout io (error_text io ''Error checking '' email e) = Some e' \<and>
               check_smtp cfg nw io email port = Inl e'))"
proof -
  from assms obtain d where d: "email_domain email = Inr d"
    using email_domain_Inr by blast
  have ok: "check_smtp cfg nw io email port = Inr (code = 250)"
    if "smtp_dialogue cfg nw email port d = Inr code" for code
    using that by (simp add: check_smtp_def d)
  have bad: "check_smtp cfg nw io email port =
      (case write_stdout io (error_text io ''Error checking '' email e) of
         None \<Rightarrow> Inr False
       | Some e' \<Rightarrow> Inl e')"
    if "smtp_dialogue cfg nw email port d = Inl e" for e
    using that by (simp add: check_smtp_def d split: option.splits)
  have true_iff: "check_smtp cfg nw io email port = Inr True \<longleftrightarrow>
      smtp_dialogue cfg nw email port d = Inr 250"
    by (cases "smtp_dialogue cfg nw email port d")
       (auto simp: check_smtp_def d split: option.splits)
  have total: "(\<exists>b. check_smtp cfg nw io email port = Inr b) \<or>
      (\<exists>e e'. write_stdout io (error_text io ''Error checking '' email e) = Some e' \<and>
               check_smtp cfg nw io email port = Inl e')"
    by (cases "smtp_dialogue cfg nw email port d")
       (auto simp: check_smtp_def d split: option.splits)
  show ?thesis
    using d true_iff ok bad total
    unfolding smtp_dialogue_Inr_iff smtp_dialogue_Inl_iff
    by (intro exI [of _ d] conjI) blast+
qed

theorem check_smtp_true_iff_250_witness:
  "AT \<in> set (ascii ''info@example.com'') \<and>
   email_domain (ascii ''info@example.com'') = Inr (ascii ''example.com'') \<and>
   resolve_mx example_net (ascii ''example.com'') = Inr [ascii ''mx.example.com''] \<and>
   smtp_rcpt example_net (ascii ''mx.example.com'', 25, smtp_timeout default_config)
     (ascii ''info@example.com'') = Inr 250 \<and>
   check_smtp default_config example_net ascii_console (ascii ''info@example.com'') 25 = Inr True \<and>
   AT \<in> set (ascii ''info@example.org'') \<and>
   email_domain (ascii ''info@example.org'') = Inr (ascii ''example.org'') \<and>
   resolve_mx example_net (ascii ''example.org'') = Inl DNSException \<and>
   write_stdout ascii_console
     (error_text ascii_console ''Error checking '' (ascii ''info@example.org'') DNSException) = None \<and>
   check_smtp default_config example_net ascii_console (ascii ''info@example.org'') 25 = Inr False"
proof -
  have at: "AT \<in> set (ascii ''info@example.com'')"
    by (simp add: ascii_def)
  have at': "AT \<in> set (ascii ''info@example.org'')"
    by (simp add: ascii_def)
  have mx: "resolve_mx example_net (ascii ''example.com'') = Inr [ascii ''mx.example.com'']"
    by (simp add: example_net_def)
  have steps: "py_index [ascii ''mx.example.com''] 0 = Inr (ascii ''mx.example.com'')"
    "smtp_connect example_net (ascii ''mx.example.com'', 25, smtp_timeout default_config) = None"
    "smtp_ehlo example_net (ascii ''mx.example.com'', 25, smtp_timeout default_config) = None"
    "smtp_mail example_net (ascii ''mx.example.com'', 25, smtp_timeout default_config) = None"
    "smtp_quit example_net (ascii ''mx.example.com'', 25, smtp_timeout default_config) = None"
    by (simp_all add: example_net_def py_index_def)
  have rcpt: "smtp_rcpt example_net (ascii ''mx.example.com'', 25, smtp_timeout default_config)
     (ascii ''info@example.com'') = Inr 250"
    by (simp add: example_net_def)
  have nomx: "resolve_mx example_net (ascii ''example.org'') = Inl DNSException"
    by (simp add: example_net_def ascii_def)
  have pr: "write_stdout ascii_console
     (error_text ascii_console ''Error checking '' (ascii ''info@example.org'') DNSException) = None"
    by (simp add: ascii_console_def error_text_def ascii_def)
  from check_smtp_true_iff_250 [OF at, of default_config example_net ascii_console 25]
    email_domain_example mx steps rcpt
  have yes: "check_smtp default_config example_net ascii_console (ascii ''info@example.com'') 25
      = Inr True"
    by auto
  from check_smtp_true_iff_250 [OF at', of default_config example_net ascii_console 25]
    email_domain_example_org nomx pr
  have no: "check_smtp default_config example_net ascii_console (ascii ''info@example.org'') 25
      = Inr False"
    by auto
  from at at' email_domain_example email_domain_example_org mx rcpt nomx pr yes no
  show ?thesis by blast
qed

text \<open>
  Two cases against the claim as it stands. An exchanger that answers RCPT TO with 250
  and then fails on QUIT: the reply code is 250 and the function returns False. An
  address that the standard output cannot encode, on a domain without exchanger: the
  handler's \<^verbatim>\<open>print\<close> raises, and the exception leaves the function.
\<close>

theorem check_smtp_true_iff_250_counterexample:
  "smtp_rcpt quit_fails_net (ascii ''mx.example.com'', 25, smtp_timeout default_config)
     (ascii ''info@example.com'') = Inr 250 \<and>
   check_smtp default_config quit_fails_net ascii_console (ascii ''info@example.com'') 25
     = Inr False \<and>
   resolve_mx example_net (ascii ''example.org'') = Inl DNSException \<and>
   check_smtp default_config example_net ascii_console (233 # ascii ''@example.org'') 25
     = Inl UnicodeEncodeError"
  by (simp add: check_smtp_def email_domain_def smtp_dialogue_def with_body_def py_index_def
      quit_fails_net_def example_net_def ascii_console_def error_text_def default_config_def
      ascii_def)




section \<open>The candidate generator\<close>

lemma set_set_add: "set (set_add x xs) = insert x (set xs)"
  by (auto simp: set_add_def)

lemma distinct_set_add: "distinct xs \<Longrightarrow> distinct (set_add x xs)"
  by (simp add: set_add_def)

lemma add_names_Inl_iff: "add_names vs names = Inl e \<longleftrightarrow> e = IndexError \<and> [] \<in> set names"
  by (induction names arbitrary: vs) (auto simp: py_index_def split: sum.splits if_splits)

lemma add_names_empty_name: "add_names vs (pre @ [] # post) = Inl IndexError"
  using add_names_Inl_iff [of vs "pre @ [] # post" IndexError] by simp

lemma generate_email_variants_shape:
  assumes "generate_email_variants lib names domain norm = Inr vs"
  shows "\<forall>v \<in> set vs. \<exists>local_part. v = local_part @ [AT] @ domain"
  using assms by (auto simp: generate_email_variants_def at_domain_def Let_def split: sum.splits)

lemma generate_prefixes_shape:
  "\<forall>e \<in> set (generate_prefixes domain custom). \<exists>local_part. e = local_part @ [AT] @ domain"
  by (auto simp: generate_prefixes_def at_domain_def Let_def)

lemma generate_prefixes_custom:
  "generate_prefixes domain (Some ps) = map (\<lambda>p. p @ [AT] @ domain) ps"
  by (simp add: generate_prefixes_def at_domain_def)


lemma length_permutations: "length (permutations xs r) = perm_count (length xs) r"
proof (induction r arbitrary: xs)
  case 0
  show ?case by simp
next
  case (Suc r)
  have eq: "map (\<lambda>i. length (permutations (take i xs @ drop (Suc i) xs) r)) [0..<length xs]
      = map (\<lambda>i. perm_count (length xs - 1) r) [0..<length xs]"
    by (rule map_cong) (auto simp: Suc.IH)
  have "length (permutations xs (Suc r))
      = sum_list (map (\<lambda>i. length (permutations (take i xs @ drop (Suc i) xs) r)) [0..<length xs])"
    by (simp add: length_concat comp_def)
  also have "\<dots> = length xs * perm_count (length xs - 1) r"
    unfolding eq by (simp add: sum_list_triv)
  finally show ?case by simp
qed

lemma perm_count_fact: "r \<le> n \<Longrightarrow> perm_count n r * fact (n - r) = fact n"
proof (induction r arbitrary: n)
  case 0
  show ?case by simp
next
  case (Suc r)
  then obtain m where n: "n = Suc m" by (cases n) auto
  with Suc.prems have "r \<le> m" by simp
  have "perm_count n (Suc r) * fact (n - Suc r) = Suc m * (perm_count m r * fact (m - r))"
    by (simp add: n algebra_simps)
  also have "\<dots> = Suc m * fact m"
    using Suc.IH [OF \<open>r \<le> m\<close>] by simp
  finally show ?case by (simp add: n)
qed

lemma perm_count_div: "r \<le> n \<Longrightarrow> perm_count n r = fact n div fact (n - r)"
  using perm_count_fact [of r n] by (metis fact_nonzero nonzero_mult_div_cancel_right)

lemma concat_map_singleton: "concat (map (\<lambda>i. [g i]) l) = map g l"
  by (induction l) auto

lemma permutations_1: "permutations xs (Suc 0) = map (\<lambda>x. [x]) xs"
proof -
  have "permutations xs (Suc 0) = map (\<lambda>i. [xs ! i]) [0..<length xs]"
    by (simp add: concat_map_singleton)
  also have "\<dots> = map (\<lambda>x. [x]) (map ((!) xs) [0..<length xs])"
    by simp
  also have "\<dots> = map (\<lambda>x. [x]) xs"
    by (simp only: map_nth)
  finally show ?thesis .
qed

lemma joined_1: "joined names (Suc 0) = set names"
proof -
  have "py_join sep ` set (map (\<lambda>x. [x]) names) = set names" for sep
    by (auto simp: image_iff)
  then show ?thesis
    by (simp only: joined_def permutations_1) simp
qed

lemma finite_joined: "finite (joined names r)"
  by (simp add: joined_def)

lemma card_joined: "card (joined names r) \<le> 2 * perm_count (length names) r"
proof -
  have "card (py_join sep ` set (permutations names r)) \<le> perm_count (length names) r" for sep
    using card_image_le [of "set (permutations names r)" "py_join sep"]
      card_length [of "permutations names r"]
    by (simp add: length_permutations)
  from this [of "[]"] this [of "[DOT]"] show ?thesis
    unfolding joined_def
    using card_Un_le [of "py_join [] ` set (permutations names r)" "py_join [DOT] ` set (permutations names r)"]
    by linarith
qed

lemma foldl_add_combination:
  "set (foldl add_combination vs ps) = set vs \<union> (py_join [] ` set ps \<union> py_join [DOT] ` set ps) \<and>
   (distinct vs \<longrightarrow> distinct (foldl add_combination vs ps))"
  by (induction ps arbitrary: vs) (auto simp: add_combination_def set_set_add distinct_set_add)

lemma foldl_rounds:
  "set (foldl (\<lambda>variants r. foldl add_combination variants (permutations names r)) vs rs)
     = set vs \<union> (\<Union>r\<in>set rs. joined names r) \<and>
   (distinct vs \<longrightarrow> distinct (foldl (\<lambda>variants r. foldl add_combination variants (permutations names r)) vs rs))"
proof (induction rs arbitrary: vs)
  case Nil
  show ?case by simp
next
  case (Cons r rs)
  show ?case
    using Cons.IH [of "foldl add_combination vs (permutations names r)"]
      foldl_add_combination [of vs "permutations names r"]
    by (auto simp: joined_def)
qed

lemma set_add_combinations:
  "set (add_combinations names) = (\<Union>r\<in>{1..length names}. joined names r)"
proof -
  have rounds: "set [1..<length names + 1] = {1..length names}"
    by auto
  have "set (add_combinations names) = set [] \<union> (\<Union>r\<in>set [1..<length names + 1]. joined names r)"
    unfolding add_combinations_def
    using foldl_rounds [of names "[]" "[1..<length names + 1]"] by (rule conjunct1)
  then show ?thesis
    unfolding rounds by simp
qed

lemma distinct_add_combinations: "distinct (add_combinations names)"
  unfolding add_combinations_def
  using foldl_rounds [of names "[]" "[1..<length names + 1]"] by (simp del: upt_Suc)

lemma add_names_Inr:
  "add_names vs names = Inr res \<Longrightarrow>
     set res = set vs \<union> set names \<union> (\<lambda>n. [hd n]) ` set names \<and> [] \<notin> set names \<and>
     (distinct vs \<longrightarrow> distinct res)"
proof (induction names arbitrary: vs)
  case Nil
  then show ?case by simp
next
  case (Cons name names)
  from Cons.prems obtain c where c: "py_index name 0 = Inr c"
    and rest: "add_names (set_add [c] (set_add name vs)) names = Inr res"
    by (auto split: sum.splits)
  from c have ne: "name \<noteq> []" and hd: "c = hd name"
    by (auto simp: py_index_def hd_conv_nth split: if_splits)
  from Cons.IH [OF rest] show ?case
    using ne hd by (auto simp: set_set_add distinct_set_add)
qed

lemma variants_subset:
  assumes "add_names (add_combinations names) names = Inr res"
  shows "set res \<subseteq> (\<Union>r\<in>{2..length names}. joined names r) \<union> set names \<union> (\<lambda>n. [hd n]) ` set names"
proof -
  have "(\<Union>r\<in>{1..length names}. joined names r) \<subseteq> (\<Union>r\<in>{2..length names}. joined names r) \<union> set names"
  proof
    fix x assume "x \<in> (\<Union>r\<in>{1..length names}. joined names r)"
    then obtain r where r: "1 \<le> r" "r \<le> length names" and x: "x \<in> joined names r" by auto
    show "x \<in> (\<Union>r\<in>{2..length names}. joined names r) \<union> set names"
    proof (cases "r = 1")
      case True
      with x show ?thesis by (simp add: joined_1)
    next
      case False
      with r have "r \<in> {2..length names}" by simp
      with x show ?thesis by blast
    qed
  qed
  with add_names_Inr [OF assms] show ?thesis
    by (auto simp: set_add_combinations)
qed

lemma variants_length:
  assumes "add_names (add_combinations names) names = Inr res"
  shows "length res \<le> 2 * (\<Sum>r = 2..length names. perm_count (length names) r) + length names + length names"
proof -
  let ?N = "length names"
  let ?A = "\<Union>r\<in>{2..?N}. joined names r"
  let ?B = "set names"
  let ?C = "(\<lambda>n. [hd n]) ` set names"
  have dist: "distinct res"
    using add_names_Inr [OF assms] distinct_add_combinations by blast
  have fin: "finite (?A \<union> ?B \<union> ?C)"
    by (simp add: finite_joined)
  have "card ?A \<le> (\<Sum>r\<in>{2..?N}. card (joined names r))"
    by (rule card_UN_le) simp
  also have "\<dots> \<le> (\<Sum>r\<in>{2..?N}. 2 * perm_count ?N r)"
    by (rule sum_mono) (rule card_joined)
  also have "\<dots> = 2 * (\<Sum>r = 2..?N. perm_count ?N r)"
    by (simp add: sum_distrib_left)
  finally have A: "card ?A \<le> 2 * (\<Sum>r = 2..?N. perm_count ?N r)" .
  have B: "card ?B \<le> ?N" by (rule card_length)
  have C: "card ?C \<le> ?N"
    using card_image_le [of "set names" "\<lambda>n. [hd n]"] card_length [of names] by simp
  have "length res = card (set res)"
    using dist by (simp add: distinct_card)
  also have "\<dots> \<le> card (?A \<union> ?B \<union> ?C)"
    using variants_subset [OF assms] fin by (rule card_mono [rotated])
  also have "\<dots> \<le> card ?A + card ?B + card ?C"
    using card_Un_le [of "?A \<union> ?B" ?C] card_Un_le [of ?A ?B] by linarith
  finally show ?thesis using A B C by linarith
qed

lemma perm_count_sum_fact:
  "(\<Sum>r = 2..n. perm_count n r) = (\<Sum>r = 2..n. fact n div fact (n - r))"
  by (rule sum.cong) (auto simp: perm_count_div)


text \<open>
  C8. Every address of \<^verbatim>\<open>generate_email_variants\<close> and of \<^verbatim>\<open>generate_prefixes\<close> is
  a local part, \<open>@\<close>, and exactly the input domain; with custom prefixes the result is
  one address per prefix, in the order of the input.
\<close>

theorem candidates_local_at_domain:
  "(\<forall>vs. generate_email_variants lib names domain norm = Inr vs \<longrightarrow>
      (\<forall>v \<in> set vs. \<exists>local_part. v = local_part @ [AT] @ domain)) \<and>
   (\<forall>e \<in> set (generate_prefixes domain custom). \<exists>local_part. e = local_part @ [AT] @ domain) \<and>
   generate_prefixes domain (Some ps) = map (\<lambda>p. p @ [AT] @ domain) ps"
  using generate_email_variants_shape [of lib names domain norm]
    generate_prefixes_shape [of domain custom] generate_prefixes_custom [of domain ps]
  by blast

theorem candidates_local_at_domain_witness:
  "generate_email_variants example_textlib [ascii ''Ab''] (ascii ''example.com'') True
     = Inr [ascii ''ab@example.com'', ascii ''a@example.com''] \<and>
   (\<exists>local_part. ascii ''ab@example.com'' = local_part @ [AT] @ ascii ''example.com'') \<and>
   (\<exists>local_part. ascii ''a@example.com'' = local_part @ [AT] @ ascii ''example.com'') \<and>
   (\<exists>local_part. ascii ''b@example.com'' = local_part @ [AT] @ ascii ''example.com'') \<and>
   generate_prefixes (ascii ''example.com'') (Some [ascii ''a'', ascii ''b''])
     = [ascii ''a@example.com'', ascii ''b@example.com'']"
proof -
  have run: "generate_email_variants example_textlib [ascii ''Ab''] (ascii ''example.com'') True
      = Inr [ascii ''ab@example.com'', ascii ''a@example.com'']"
    by code_simp
  have custom: "generate_prefixes (ascii ''example.com'') (Some [ascii ''a'', ascii ''b''])
      = [ascii ''a@example.com'', ascii ''b@example.com'']"
    by code_simp
  from candidates_local_at_domain [of example_textlib "[ascii ''Ab'']" "ascii ''example.com''"
      True "Some [ascii ''a'', ascii ''b'']" "[ascii ''a'', ascii ''b'']"]
  show ?thesis
    unfolding run custom by simp
qed

text \<open>
  C5. What the code does on a token list that holds an empty string: \<^verbatim>\<open>name[0]\<close>
  of line 188 raises IndexError, whatever stands before and after the empty token. The
  same happens with normalization on for a token that normalizes to the empty string,
  and the exception leaves \<^verbatim>\<open>find_valid_emails\<close> when a name holds two consecutive
  spaces.
\<close>

theorem generate_email_variants_empty_token:
  "generate_email_variants lib (pre @ [[]] @ post) domain False = Inl IndexError \<and>
   normalize_name example_textlib (ascii ''!!!'') = [] \<and>
   generate_email_variants example_textlib [ascii ''!!!''] (ascii ''example.com'') True
     = Inl IndexError \<and>
   fst (find_valid_emails default_config example_textlib example_net ascii_console (ascii ''k3x9q2m7p1'')
          (round_robin 5 30) (ascii ''example.com'') (PStr (ascii ''John  Smith'')))
     = Raises IndexError"
proof -
  have "normalize_name example_textlib (ascii ''!!!'') = []"
    by code_simp
  moreover have "generate_email_variants example_textlib [ascii ''!!!''] (ascii ''example.com'') True
     = Inl IndexError"
    by code_simp
  moreover have "fst (find_valid_emails default_config example_textlib example_net ascii_console
      (ascii ''k3x9q2m7p1'') (round_robin 5 30) (ascii ''example.com'')
      (PStr (ascii ''John  Smith''))) = Raises IndexError"
    by code_simp
  ultimately show ?thesis
    by (simp add: generate_email_variants_def add_names_empty_name)
qed

text \<open>
  C4, as the code has it. The loop of line 179 runs over every length \<open>r\<close> from 1 to
  \<open>N\<close>, so the arrangements of every length from 2 to \<open>N\<close> count (those of length 1
  are the tokens themselves): a returned list has at most
  \<open>2 * (\<Sum>r = 2..N. N! / (N - r)!) + N + N\<close> addresses, which is 8 for \<open>N = 2\<close>.
\<close>

theorem generate_email_variants_size:
  assumes "generate_email_variants lib names domain norm = Inr vs"
  shows "length vs \<le> 2 * (\<Sum>r = 2..length names. fact (length names) div fact (length names - r))
           + length names + length names \<and>
         (length names = 2 \<longrightarrow> length vs \<le> 8)"
proof -
  let ?names = "if norm then map (normalize_name lib) names else names"
  from assms obtain res where res: "add_names (add_combinations ?names) ?names = Inr res"
    and vs: "vs = map (\<lambda>variant. at_domain variant domain) res"
    by (auto simp: generate_email_variants_def Let_def split: sum.splits)
  have len: "length ?names = length names" by simp
  from variants_length [OF res]
  have bound: "length vs \<le> 2 * (\<Sum>r = 2..length names. fact (length names) div fact (length names - r))
           + length names + length names"
    unfolding len perm_count_sum_fact by (simp add: vs)
  have "length names = 2 \<longrightarrow> length vs \<le> 8"
  proof
    assume "length names = 2"
    with bound show "length vs \<le> 8" by (simp add: fact_numeral)
  qed
  with bound show ?thesis by blast
qed

theorem generate_email_variants_size_witness:
  "generate_email_variants example_textlib [ascii ''ab'', ascii ''cd''] (ascii ''example.com'') True
     = Inr (map ascii [''ab@example.com'', ''cd@example.com'', ''abcd@example.com'',
         ''ab.cd@example.com'', ''cdab@example.com'', ''cd.ab@example.com'',
         ''a@example.com'', ''c@example.com'']) \<and>
   length (map ascii [''ab@example.com'', ''cd@example.com'', ''abcd@example.com'',
         ''ab.cd@example.com'', ''cdab@example.com'', ''cd.ab@example.com'',
         ''a@example.com'', ''c@example.com'']) \<le> 8"
proof -
  have run: "generate_email_variants example_textlib [ascii ''ab'', ascii ''cd'']
      (ascii ''example.com'') True
     = Inr (map ascii [''ab@example.com'', ''cd@example.com'', ''abcd@example.com'',
         ''ab.cd@example.com'', ''cdab@example.com'', ''cd.ab@example.com'',
         ''a@example.com'', ''c@example.com''])"
    by code_simp
  from generate_email_variants_size [OF run] show ?thesis
    using run by simp
qed

text \<open>
  The bound of the claim, \<open>N! * 2 + N + N\<close>, fails for three tokens: the code returns
  30 addresses, more than \<open>3! * 2 + 3 + 3 = 18\<close>.
\<close>

theorem generate_email_variants_size_counterexample:
  "map_sum id length (generate_email_variants example_textlib
      [ascii ''ab'', ascii ''cd'', ascii ''ef''] (ascii ''example.com'') True) = Inr 30 \<and>
   \<not> (30 \<le> fact 3 * 2 + 3 + (3::nat))"
proof -
  have "map_sum id length (generate_email_variants example_textlib
      [ascii ''ab'', ascii ''cd'', ascii ''ef''] (ascii ''example.com'') True) = Inr 30"
    by code_simp
  then show ?thesis by (simp add: fact_numeral)
qed

section \<open>The verification scheduler\<close>

text \<open>
  C1. When the catch-all check is enabled and \<^verbatim>\<open>check_email_catchall\<close> returns True,
  \<^verbatim>\<open>find_valid_emails\<close> returns the empty list, and \<^verbatim>\<open>check_smtp\<close> has been called
  exactly once, on the random address; this holds for every name argument and under
  every schedule.
\<close>

theorem catchall_short_circuit:
  assumes "check_catchall cfg" and "check_email_catchall cfg nw io rnd domain = Inr True"
  shows "find_valid_emails cfg lib nw io rnd sched domain names
           = (Returns [], [random_email rnd domain])"
  using assms by (simp add: find_valid_emails_def)

lemma catchall_example:
  "check_email_catchall default_config catchall_net ascii_console (ascii ''k3x9q2m7p1'') (ascii ''example.com'') = Inr True"
  by code_simp

theorem catchall_short_circuit_witness:
  "check_catchall default_config \<and>
   check_email_catchall default_config catchall_net ascii_console (ascii ''k3x9q2m7p1'') (ascii ''example.com'') = Inr True \<and>
   find_valid_emails default_config example_textlib catchall_net ascii_console (ascii ''k3x9q2m7p1'')
       (round_robin 5 3) (ascii ''example.com'') (PStr (ascii ''Ab Cd''))
     = (Returns [], [ascii ''k3x9q2m7p1falan@example.com''])"
proof -
  have on: "check_catchall default_config"
    by (simp add: default_config_def)
  have addr: "random_email (ascii ''k3x9q2m7p1'') (ascii ''example.com'') = ascii ''k3x9q2m7p1falan@example.com''"
    by (simp add: random_email_def at_domain_def ascii_def)
  from catchall_short_circuit [OF on catchall_example]
  show ?thesis using on catchall_example by (simp add: addr)
qed


text \<open>
  C3, at a list of two name lists that share a token. Each inner list contributes its
  own duplicate-free variants, and line 239 appends them without looking at what is
  already there: the candidate list is not duplicate-free, and \<^verbatim>\<open>check_smtp\<close> is called
  twice on the same address within the one call.
\<close>

theorem nested_names_probed_twice:
  "all_emails default_config example_textlib (ascii ''example.com'')
       (PList [PList [PStr (ascii ''ab'')], PList [PStr (ascii ''ab'')]])
     = Inr (map ascii [''ab@example.com'', ''a@example.com'', ''ab@example.com'', ''a@example.com'']) \<and>
   \<not> distinct (map ascii [''ab@example.com'', ''a@example.com'', ''ab@example.com'', ''a@example.com'']) \<and>
   find_valid_emails default_config example_textlib example_net ascii_console (ascii ''k3x9q2m7p1'')
       (round_robin 5 30) (ascii ''example.com'')
       (PList [PList [PStr (ascii ''ab'')], PList [PStr (ascii ''ab'')]])
     = (Returns (map ascii [''ab@example.com'', ''ab@example.com'']),
        map ascii [''k3x9q2m7p1falan@example.com'', ''ab@example.com'', ''a@example.com'',
                   ''ab@example.com'', ''a@example.com''])"
  by code_simp

section \<open>The worker pool\<close>

lemma sum_list_update_add:
  fixes g :: "'b \<Rightarrow> 'c::comm_monoid_add"
  shows "i < length ws \<Longrightarrow>
    sum_list (map g (ws[i := w])) + g (ws ! i) = sum_list (map g ws) + g w"
proof (induction ws arbitrary: i)
  case Nil
  then show ?case by simp
next
  case (Cons a ws)
  show ?case
  proof (cases i)
    case 0
    show ?thesis
      unfolding 0 by (simp add: add.commute add.left_commute)
  next
    case (Suc j)
    with Cons.prems have "j < length ws" by simp
    from Cons.IH [OF this]
    have "g a + (sum_list (map g (ws[j := w])) + g (ws ! j)) = g a + (sum_list (map g ws) + g w)"
      by (rule arg_cong)
    then show ?thesis
      unfolding Suc by (simp only: list_update_code list.map sum_list.Cons nth_Cons_Suc add.assoc)
  qed
qed

lemma queued_append: "queued (q @ q') = queued q @ queued q'"
  by (induction q rule: queued.induct) auto

lemma sentinels_append: "sentinels (q @ q') = sentinels q + sentinels q'"
  by (induction q rule: sentinels.induct) auto

lemma counts_Nil:
  "busy_count [] = 0" "halted_count [] = 0" "failing_count [] = 0" "in_hand [] = {#}"
  by (simp_all add: busy_count_def halted_count_def failing_count_def in_hand_def)

lemma counts_snoc:
  "busy_count (ws @ [w]) = busy_count ws + busy w"
  "halted_count (ws @ [w]) = halted_count ws + halted w"
  "failing_count (ws @ [w]) = failing_count ws + failing w"
  "in_hand (ws @ [w]) = in_hand ws + held w"
  by (simp_all add: busy_count_def halted_count_def failing_count_def in_hand_def)

lemma busy_count_update:
  "i < length ws \<Longrightarrow> busy_count (ws[i := w]) + busy (ws ! i) = busy_count ws + busy w"
  unfolding busy_count_def by (rule sum_list_update_add)

lemma halted_count_update:
  "i < length ws \<Longrightarrow> halted_count (ws[i := w]) + halted (ws ! i) = halted_count ws + halted w"
  unfolding halted_count_def by (rule sum_list_update_add)

lemma failing_count_update:
  "i < length ws \<Longrightarrow> failing_count (ws[i := w]) + failing (ws ! i) = failing_count ws + failing w"
  unfolding failing_count_def by (rule sum_list_update_add)

lemma in_hand_update:
  "i < length ws \<Longrightarrow> in_hand (ws[i := w]) + held (ws ! i) = in_hand ws + held w"
  unfolding in_hand_def by (rule sum_list_update_add)

lemma busy_le_count: "i < length ws \<Longrightarrow> busy (ws ! i) \<le> busy_count ws"
proof -
  assume "i < length ws"
  then have "busy (ws ! i) \<in> set (map busy ws)" by simp
  then show ?thesis unfolding busy_count_def by (simp only: member_le_sum_list)
qed

lemma halted_le_count: "i < length ws \<Longrightarrow> halted (ws ! i) \<le> halted_count ws"
proof -
  assume "i < length ws"
  then have "halted (ws ! i) \<in> set (map halted ws)" by simp
  then show ?thesis unfolding halted_count_def by (simp only: member_le_sum_list)
qed

text \<open>The invariant holds at the start and every step of a thread keeps it.\<close>

lemma pool_inv_init: "pool_inv f n items (pool_init n)"
  unfolding pool_inv_def pool_init_def by (simp add: counts_Nil)

lemma main_step_inv:
  assumes "pool_inv f n items s" and "main_step n items s (pc s) = Some s'"
  shows "pool_inv f n items s'"
proof (cases "pc s")
  case (Starting k)
  with assms show ?thesis
    by (cases k) (auto simp: pool_inv_def counts_snoc)
next
  case (Putting xs)
  with assms show ?thesis
    by (cases xs) (auto simp: pool_inv_def queued_append sentinels_append)
next
  case Joining
  with assms show ?thesis
    by (auto simp: pool_inv_def split: if_splits)
next
  case (Stopping k)
  with assms show ?thesis
    by (cases k) (auto simp: pool_inv_def queued_append sentinels_append)
next
  case (JoinThreads i)
  with assms show ?thesis
    by (auto simp: pool_inv_def split: if_splits)
next
  case Returned
  with assms show ?thesis by simp
qed

lemma worker_get_stop_inv:
  assumes inv: "pool_inv f n items s" and i: "i < length (workers s)"
    and idle: "workers s ! i = Idle" and q: "queue s = None # q"
  shows "pool_inv f n items (s\<lparr>queue := q, workers := (workers s)[i := Stopped]\<rparr>)"
proof -
  have b: "busy_count ((workers s)[i := Stopped]) = busy_count (workers s)"
    using busy_count_update [OF i, of Stopped] by (simp add: idle)
  have h: "halted_count ((workers s)[i := Stopped]) = Suc (halted_count (workers s))"
    using halted_count_update [OF i, of Stopped] by (simp add: idle)
  have m: "in_hand ((workers s)[i := Stopped]) = in_hand (workers s)"
    using in_hand_update [OF i, of Stopped] by (simp add: idle)
  from inv show ?thesis
    by (cases "pc s") (auto simp: pool_inv_def q b h m)
qed

lemma worker_get_item_inv:
  assumes inv: "pool_inv f n items s" and i: "i < length (workers s)"
    and idle: "workers s ! i = Idle" and q: "queue s = Some x # q"
  shows "pool_inv f n items (s\<lparr>queue := q, workers := (workers s)[i := Got x]\<rparr>)"
proof -
  have b: "busy_count ((workers s)[i := Got x]) = Suc (busy_count (workers s))"
    using busy_count_update [OF i, of "Got x"] by (simp add: idle)
  have h: "halted_count ((workers s)[i := Got x]) = halted_count (workers s)"
    using halted_count_update [OF i, of "Got x"] by (simp add: idle)
  have m: "in_hand ((workers s)[i := Got x]) = add_mset x (in_hand (workers s))"
    using in_hand_update [OF i, of "Got x"] by (simp add: idle)
  from inv show ?thesis
    by (cases "pc s") (auto simp: pool_inv_def q b h m)
qed

lemma worker_work_inv:
  assumes inv: "pool_inv f n items s" and i: "i < length (workers s)"
    and got: "workers s ! i = Got x" and w: "w = Finishing \<or> w = Failing"
  shows "pool_inv f n items
     (s\<lparr>results := results s @ (case appended f x of None \<Rightarrow> [] | Some r \<Rightarrow> [r]),
         processed := processed s @ [x], workers := (workers s)[i := w]\<rparr>)"
proof -
  from w have bw: "busy w = 1" and hw: "held w = {#}" by auto
  have b: "busy_count ((workers s)[i := w]) = busy_count (workers s)"
    using busy_count_update [OF i, of w] by (simp add: got bw)
  have m: "in_hand (workers s) = add_mset x (in_hand ((workers s)[i := w]))"
    using in_hand_update [OF i, of w] by (simp add: got hw)
  have r: "List.map_filter (appended f) (processed s @ [x])
      = List.map_filter (appended f) (processed s) @ (case appended f x of None \<Rightarrow> [] | Some r \<Rightarrow> [r])"
    by (simp add: List.map_filter_def split: body.splits)
  from inv have ph: "phase_inv n s (pc s)"
    and res: "results s = List.map_filter (appended f) (processed s)"
    and acc: "mset (processed s) + in_hand (workers s) + mset (queued (queue s))
       + mset (to_put items (pc s)) = mset items"
    by (simp_all add: pool_inv_def)
  from busy_le_count [OF i] have pos: "0 < busy_count (workers s)"
    by (simp add: got)
  have ph': "phase_inv n (s\<lparr>results := results s @ (case appended f x of None \<Rightarrow> [] | Some r \<Rightarrow> [r]),
         processed := processed s @ [x], workers := (workers s)[i := w]\<rparr>) (pc s)"
    using ph pos by (cases "pc s") (simp_all add: b)
  have acc': "mset (processed s @ [x]) + in_hand ((workers s)[i := w])
       + mset (queued (queue s)) + mset (to_put items (pc s)) = mset items"
    using acc unfolding m by simp
  show ?thesis
    unfolding pool_inv_def using ph' acc' by (simp add: r res)
qed

lemma worker_done_inv:
  assumes inv: "pool_inv f n items s" and i: "i < length (workers s)"
    and fin: "workers s ! i = Finishing \<and> w = Idle \<or> workers s ! i = Failing \<and> w = Stopped"
  shows "pool_inv f n items
     (s\<lparr>unfinished := unfinished s - 1, workers := (workers s)[i := w]\<rparr>)"
proof -
  from fin have old: "busy (workers s ! i) = 1" "held (workers s ! i) = {#}"
    and new: "busy w = 0" "held w = {#}"
    by auto
  have b: "busy_count (workers s) = Suc (busy_count ((workers s)[i := w]))"
    using busy_count_update [OF i, of w] by (simp add: old new)
  have m: "in_hand ((workers s)[i := w]) = in_hand (workers s)"
    using in_hand_update [OF i, of w] by (simp add: old new)
  from inv show ?thesis
    by (cases "pc s") (auto simp: pool_inv_def b m)
qed

lemma worker_step_inv:
  assumes inv: "pool_inv f n items s" and i: "i < length (workers s)"
    and step: "worker_step f i s (workers s ! i) = Some s'"
  shows "pool_inv f n items s'"
proof (cases "workers s ! i")
  case Idle
  with step show ?thesis
    using worker_get_stop_inv [OF inv i Idle] worker_get_item_inv [OF inv i Idle]
    by (auto split: list.splits option.splits)
next
  case (Got x)
  with step show ?thesis
    using worker_work_inv [OF inv i Got, of Finishing] worker_work_inv [OF inv i Got, of Failing]
    by (auto split: body.splits)
next
  case Finishing
  with step show ?thesis
    using worker_done_inv [OF inv i, of Idle] by auto
next
  case Failing
  with step show ?thesis
    using worker_done_inv [OF inv i, of Stopped] by auto
next
  case Stopped
  with step show ?thesis by simp
qed

lemma pool_step_inv:
  assumes "pool_inv f n items s" and "pool_step f n items th s = Some s'"
  shows "pool_inv f n items s'"
proof (cases th)
  case MainThread
  with assms show ?thesis
    by (simp add: pool_step_def main_step_inv)
next
  case (WorkerThread i)
  with assms show ?thesis
    by (auto simp: pool_step_def split: if_splits intro: worker_step_inv)
qed

lemma run_pool_inv:
  "pool_inv f n items s \<Longrightarrow> pool_inv f n items (run_pool f n items sched s)"
proof (induction sched arbitrary: s)
  case Nil
  then show ?case by simp
next
  case (Cons th sched)
  show ?case
  proof (cases "pool_step f n items th s")
    case None
    with Cons show ?thesis by simp
  next
    case (Some s')
    with Cons.prems have "pool_inv f n items s'" by (rule pool_step_inv)
    from Cons.IH [OF this] Some show ?thesis by simp
  qed
qed

lemma work_left_snoc: "work_left (ws @ [w]) = work_left ws + worker_weight w"
  by (simp add: work_left_def)

lemma work_left_update:
  "i < length ws \<Longrightarrow> work_left (ws[i := w]) + worker_weight (ws ! i) = work_left ws + worker_weight w"
  unfolding work_left_def by (rule sum_list_update_add)

text \<open>Every step lowers the bound, so a run has finitely many effective steps.\<close>

lemma main_step_decreases:
  assumes "pool_inv f n items s" and "main_step n items s (pc s) = Some s'"
  shows "pool_measure n items s' < pool_measure n items s"
proof (cases "pc s")
  case (Starting k)
  with assms show ?thesis
    by (cases k) (auto simp: pool_measure_def work_left_snoc)
next
  case (Putting xs)
  with assms show ?thesis
    by (cases xs) (auto simp: pool_measure_def queued_append sentinels_append)
next
  case Joining
  with assms show ?thesis
    by (auto simp: pool_measure_def split: if_splits)
next
  case (Stopping k)
  with assms show ?thesis
    by (cases k) (auto simp: pool_measure_def queued_append sentinels_append)
next
  case (JoinThreads i)
  with assms show ?thesis
    by (auto simp: pool_measure_def pool_inv_def split: if_splits)
next
  case Returned
  with assms show ?thesis by simp
qed

lemma worker_step_decreases:
  assumes i: "i < length (workers s)" and step: "worker_step f i s (workers s ! i) = Some s'"
  shows "pool_measure n items s' < pool_measure n items s"
proof (cases "workers s ! i")
  case Idle
  show ?thesis
  proof (cases "queue s")
    case Nil
    with step Idle show ?thesis by simp
  next
    case (Cons item q)
    show ?thesis
    proof (cases item)
      case None
      with step Idle Cons have s': "s' = s\<lparr>queue := q, workers := (workers s)[i := Stopped]\<rparr>"
        by simp
      show ?thesis
        using work_left_update [OF i, of Stopped]
        by (simp add: s' pool_measure_def Idle Cons None)
    next
      case (Some x)
      with step Idle Cons have s': "s' = s\<lparr>queue := q, workers := (workers s)[i := Got x]\<rparr>"
        by simp
      show ?thesis
        using work_left_update [OF i, of "Got x"]
        by (simp add: s' pool_measure_def Idle Cons Some)
    qed
  qed
next
  case (Got x)
  from step Got obtain w where w: "workers s' = (workers s)[i := w]"
    and ww: "worker_weight w = 1"
    and q: "queue s' = queue s" and p: "pc s' = pc s"
    by (cases "f x") auto
  show ?thesis
    using work_left_update [OF i, of w]
    by (simp add: pool_measure_def w ww q p Got)
next
  case Finishing
  with step have s': "s' = s\<lparr>unfinished := unfinished s - 1, workers := (workers s)[i := Idle]\<rparr>"
    by simp
  show ?thesis
    using work_left_update [OF i, of Idle]
    by (simp add: s' pool_measure_def Finishing)
next
  case Failing
  with step have s': "s' = s\<lparr>unfinished := unfinished s - 1, workers := (workers s)[i := Stopped]\<rparr>"
    by simp
  show ?thesis
    using work_left_update [OF i, of Stopped]
    by (simp add: s' pool_measure_def Failing)
next
  case Stopped
  with step show ?thesis by simp
qed

lemma pool_step_decreases:
  assumes "pool_inv f n items s" and "pool_step f n items th s = Some s'"
  shows "pool_measure n items s' < pool_measure n items s"
proof (cases th)
  case MainThread
  with assms show ?thesis
    by (simp add: pool_step_def main_step_decreases)
next
  case (WorkerThread i)
  with assms show ?thesis
    by (auto simp: pool_step_def split: if_splits intro: worker_step_decreases)
qed

lemma run_pool_measure_le:
  "pool_inv f n items s \<Longrightarrow>
     pool_measure n items (run_pool f n items sched s) \<le> pool_measure n items s"
proof (induction sched arbitrary: s)
  case Nil
  show ?case by simp
next
  case (Cons th sched)
  show ?case
  proof (cases "pool_step f n items th s")
    case None
    with Cons show ?thesis by simp
  next
    case (Some s')
    from Cons.prems Some have inv': "pool_inv f n items s'" by (rule pool_step_inv)
    from Cons.prems Some have "pool_measure n items s' < pool_measure n items s"
      by (rule pool_step_decreases)
    with Cons.IH [OF inv'] Some show ?thesis by simp
  qed
qed

lemma run_pool_progress:
  assumes "pool_inv f n items s" and "pool_step f n items th s \<noteq> None" and "th \<in> set sched"
  shows "pool_measure n items (run_pool f n items sched s) < pool_measure n items s"
  using assms
proof (induction sched arbitrary: s)
  case Nil
  then show ?case by simp
next
  case (Cons t sched)
  show ?case
  proof (cases "pool_step f n items t s")
    case None
    with Cons.prems have "th \<in> set sched" by auto
    from Cons.IH [OF Cons.prems(1,2) this] None show ?thesis by simp
  next
    case (Some s')
    from Cons.prems(1) Some have inv': "pool_inv f n items s'" by (rule pool_step_inv)
    from Cons.prems(1) Some have "pool_measure n items s' < pool_measure n items s"
      by (rule pool_step_decreases)
    with run_pool_measure_le [OF inv', of sched] Some show ?thesis by simp
  qed
qed

lemma busy_count_pos: "0 < busy_count ws \<Longrightarrow> \<exists>i<length ws. 0 < busy (ws ! i)"
proof (induction ws)
  case Nil
  then show ?case by (simp add: busy_count_def)
next
  case (Cons w ws)
  show ?case
  proof (cases "0 < busy w")
    case True
    then have "0 < length (w # ws) \<and> 0 < busy ((w # ws) ! 0)" by simp
    then show ?thesis by blast
  next
    case False
    with Cons.prems have "0 < busy_count ws" by (simp add: busy_count_def)
    from Cons.IH [OF this] obtain i where "i < length ws" "0 < busy (ws ! i)" by blast
    then have "Suc i < length (w # ws) \<and> 0 < busy ((w # ws) ! Suc i)" by simp
    then show ?thesis by blast
  qed
qed

lemma halted_count_le: "halted_count ws \<le> length ws"
proof (induction ws)
  case Nil
  show ?case by (simp add: halted_count_def)
next
  case (Cons w ws)
  then show ?case by (cases w) (simp_all add: halted_count_def)
qed

lemma halted_count_less:
  assumes "i < length ws" and "ws ! i \<noteq> Stopped"
  shows "halted_count ws < length ws"
proof -
  from assms(2) have "halted (ws ! i) = 0" by (cases "ws ! i") simp_all
  with halted_count_update [OF assms(1), of Stopped]
  have "halted_count (ws[i := Stopped]) = Suc (halted_count ws)" by simp
  with halted_count_le [of "ws[i := Stopped]"] show ?thesis by simp
qed

lemma held_in_hand: "i < length ws \<Longrightarrow> ws ! i = Got x \<Longrightarrow> x \<in># in_hand ws"
proof -
  assume i: "i < length ws" and g: "ws ! i = Got x"
  from in_hand_update [OF i, of Idle] have "in_hand ws = in_hand (ws[i := Idle]) + {#x#}"
    by (simp add: g)
  then show ?thesis by simp
qed

lemma busy_count_0_in_hand: "busy_count ws = 0 \<Longrightarrow> in_hand ws = {#}"
proof (induction ws)
  case Nil
  show ?case by (simp add: in_hand_def)
next
  case (Cons w ws)
  then show ?case by (cases w) (simp_all add: in_hand_def busy_count_def)
qed

lemma got_in_items:
  assumes inv: "pool_inv f n items s" and i: "i < length (workers s)" and g: "workers s ! i = Got x"
  shows "x \<in> set items"
proof -
  from held_in_hand [OF i g]
  have "x \<in># mset (processed s) + in_hand (workers s) + mset (queued (queue s))
       + mset (to_put items (pc s))"
    by simp
  with inv have "x \<in># mset items" by (simp add: pool_inv_def)
  then show ?thesis by simp
qed

lemma worker_enabled_busy:
  assumes inv: "pool_inv f n items s" and nohang: "\<forall>x\<in>set items. f x \<noteq> Hang"
    and i: "i < length (workers s)" and b: "0 < busy (workers s ! i)"
  shows "pool_step f n items (WorkerThread i) s \<noteq> None"
proof (cases "workers s ! i")
  case (Got x)
  from got_in_items [OF inv i Got] nohang have "f x \<noteq> Hang" by blast
  with Got i show ?thesis
    by (cases "f x") (simp_all add: pool_step_def)
next
  case Finishing
  with i show ?thesis by (simp add: pool_step_def)
next
  case Failing
  with i show ?thesis by (simp add: pool_step_def)
next
  case Idle
  with b show ?thesis by simp
next
  case Stopped
  with b show ?thesis by simp
qed

lemma worker_enabled_idle:
  assumes i: "i < length (workers s)" and idle: "workers s ! i = Idle" and q: "queue s \<noteq> []"
  shows "pool_step f n items (WorkerThread i) s \<noteq> None"
  using assms by (auto simp: pool_step_def split: list.splits option.splits)

lemma idle_of_counts:
  assumes "i < length ws" and "busy_count ws = 0" and "ws ! i \<noteq> Stopped"
  shows "ws ! i = Idle"
proof -
  from busy_le_count [OF assms(1)] assms(2) have "busy (ws ! i) = 0" by simp
  with assms(3) show ?thesis by (cases "ws ! i") simp_all
qed

lemma not_stopped_of_count:
  assumes "i < length ws" and "halted_count ws = 0"
  shows "ws ! i \<noteq> Stopped"
proof
  assume "ws ! i = Stopped"
  with halted_le_count [OF assms(1)] assms(2) show False by simp
qed

lemma queue_nonempty: "queued q \<noteq> [] \<or> 0 < sentinels q \<Longrightarrow> q \<noteq> []"
  by auto

text \<open>
  No deadlock: with at least one worker and a body that comes back on every item, some
  thread can take a step as long as the main thread has not returned.
\<close>

lemma pool_progress:
  assumes inv: "pool_inv f n items s" and calm: "calm n s" and n: "0 < n"
    and nohang: "\<forall>x\<in>set items. f x \<noteq> Hang" and running: "pc s \<noteq> Returned"
  shows "\<exists>th. pool_step f n items th s \<noteq> None \<and> th \<in> set (MainThread # map WorkerThread [0..<n])"
proof -
  from inv have ph: "phase_inv n s (pc s)" by (simp add: pool_inv_def)
  from calm have cp: "calm_phase n s (pc s)" by (simp add: calm_def)
  have main: "pool_step f n items MainThread s \<noteq> None \<Longrightarrow> ?thesis"
    by (metis list.set_intros(1))
  have worker: "pool_step f n items (WorkerThread i) s \<noteq> None \<Longrightarrow> i < n \<Longrightarrow> ?thesis" for i
  proof -
    assume e: "pool_step f n items (WorkerThread i) s \<noteq> None" and "i < n"
    then have "WorkerThread i \<in> set (MainThread # map WorkerThread [0..<n])" by simp
    with e show ?thesis by blast
  qed
  show ?thesis
  proof (cases "pc s")
    case (Starting k)
    then show ?thesis by (intro main) (cases k; simp add: pool_step_def)
  next
    case (Putting xs)
    then show ?thesis by (intro main) (cases xs; simp add: pool_step_def)
  next
    case (Stopping k)
    then show ?thesis by (intro main) (cases k; simp add: pool_step_def)
  next
    case Returned
    with running show ?thesis by simp
  next
    case Joining
    with ph cp have len: "length (workers s) = n" and sen: "sentinels (queue s) = 0"
      and halt: "halted_count (workers s) = 0"
      and unf: "unfinished s = length (queued (queue s)) + busy_count (workers s)"
      by simp_all
    show ?thesis
    proof (cases "unfinished s = 0")
      case True
      with Joining show ?thesis by (intro main) (simp add: pool_step_def)
    next
      case False
      show ?thesis
      proof (cases "0 < busy_count (workers s)")
        case True
        from busy_count_pos [OF this] obtain i where i: "i < length (workers s)"
          and b: "0 < busy (workers s ! i)" by blast
        from worker_enabled_busy [OF inv nohang i b] i len show ?thesis
          by (intro worker [of i]) simp_all
      next
        case no_busy: False
        with False unf have q: "queue s \<noteq> []" by auto
        from n len have i: "0 < length (workers s)" by simp
        from not_stopped_of_count [OF i halt] no_busy idle_of_counts [OF i]
        have "workers s ! 0 = Idle" by simp
        from worker_enabled_idle [OF i this q] n show ?thesis
          by (intro worker [of 0]) simp_all
      qed
    qed
  next
    case (JoinThreads i)
    with ph cp have len: "length (workers s) = n" and busy0: "busy_count (workers s) = 0"
      and total: "sentinels (queue s) + halted_count (workers s) = n"
      by simp_all
    show ?thesis
    proof (cases "i < length (workers s)")
      case False
      with JoinThreads show ?thesis by (intro main) (simp add: pool_step_def)
    next
      case True
      show ?thesis
      proof (cases "workers s ! i = Stopped")
        case stopped: True
        with JoinThreads True show ?thesis by (intro main) (simp add: pool_step_def)
      next
        case False
        from idle_of_counts [OF True busy0 False] have idle: "workers s ! i = Idle" .
        from halted_count_less [OF True False] total len have "0 < sentinels (queue s)" by simp
        then have "queue s \<noteq> []" by auto
        from worker_enabled_idle [OF True idle this] True len show ?thesis
          by (intro worker [of i]) simp_all
      qed
    qed
  qed
qed

lemma run_pool_append:
  "run_pool f n items (sched @ sched') s = run_pool f n items sched' (run_pool f n items sched s)"
  by (induction sched arbitrary: s) simp_all

lemma worker_step_pc: "worker_step f i s w = Some s' \<Longrightarrow> pc s' = pc s"
  by (cases w) (auto split: list.splits option.splits body.splits)

lemma pool_step_Returned:
  assumes "pc s = Returned" and "pool_step f n items th s = Some s'"
  shows "pc s' = Returned"
proof (cases th)
  case MainThread
  with assms show ?thesis by (simp add: pool_step_def)
next
  case (WorkerThread i)
  with assms show ?thesis
    by (auto simp: pool_step_def split: if_splits dest: worker_step_pc)
qed

lemma run_pool_Returned:
  "pc s = Returned \<Longrightarrow> pc (run_pool f n items sched s) = Returned"
proof (induction sched arbitrary: s)
  case Nil
  then show ?case by simp
next
  case (Cons th sched)
  show ?case
  proof (cases "pool_step f n items th s")
    case None
    with Cons show ?thesis by simp
  next
    case (Some s')
    with Cons.prems have "pc s' = Returned" by (rule pool_step_Returned)
    from Cons.IH [OF this] Some show ?thesis by simp
  qed
qed

lemma measure_0_Returned:
  assumes "pool_measure n items s = 0"
  shows "pc s = Returned"
  using assms by (cases "pc s") (simp_all add: pool_measure_def)

lemma failing_le_busy: "failing w \<le> busy w"
  by (cases w) simp_all

lemma failing_count_le_busy: "failing_count ws \<le> busy_count ws"
proof (induction ws)
  case Nil
  show ?case by (simp add: counts_Nil)
next
  case (Cons w ws)
  with failing_le_busy [of w] show ?case
    by (simp add: failing_count_def busy_count_def)
qed

lemma failing_le_count: "i < length ws \<Longrightarrow> failing (ws ! i) \<le> failing_count ws"
proof -
  assume "i < length ws"
  then have "failing (ws ! i) \<in> set (map failing ws)" by simp
  then show ?thesis unfolding failing_count_def by (simp only: member_le_sum_list)
qed

text \<open>
  As long as no handler's \<^verbatim>\<open>print\<close> raises, workers end only on a sentinel: this holds
  at the start and every step keeps it when the body ends no worker.
\<close>

lemma calm_init: "calm n (pool_init n)"
  by (simp add: calm_def pool_init_def)

lemma main_step_calm:
  assumes inv: "pool_inv f n items s" and calm: "calm n s"
    and step: "main_step n items s (pc s) = Some s'"
  shows "calm n s'"
proof (cases "pc s")
  case (Starting k)
  show ?thesis
  proof (cases k)
    case 0
    from inv Starting have b: "busy_count (workers s) = 0" and h: "halted_count (workers s) = 0"
      by (simp_all add: pool_inv_def)
    from b failing_count_le_busy [of "workers s"] have "failing_count (workers s) = 0" by simp
    with h step Starting 0 show ?thesis by (auto simp: calm_def)
  next
    case (Suc j)
    with step Starting show ?thesis by (auto simp: calm_def)
  qed
next
  case (Putting xs)
  with calm step show ?thesis
    by (cases xs) (auto simp: calm_def)
next
  case Joining
  with inv calm step show ?thesis
    by (auto simp: calm_def pool_inv_def split: if_splits)
next
  case (Stopping k)
  with inv calm step show ?thesis
    by (cases k) (auto simp: calm_def pool_inv_def sentinels_append)
next
  case (JoinThreads i)
  with calm step show ?thesis
    by (auto simp: calm_def split: if_splits)
next
  case Returned
  with step show ?thesis by simp
qed

lemma calm_update:
  assumes calm: "calm n s" and i: "i < length (workers s)"
    and h: "halted w = halted (workers s ! i)" and f: "failing w = failing (workers s ! i)"
    and q: "sentinels (queue s') = sentinels (queue s)" and p: "pc s' = pc s"
    and w: "workers s' = (workers s)[i := w]"
  shows "calm n s'"
proof -
  have "halted_count (workers s') = halted_count (workers s)"
    using halted_count_update [OF i, of w] by (simp add: w h)
  moreover have "failing_count (workers s') = failing_count (workers s)"
    using failing_count_update [OF i, of w] by (simp add: w f)
  ultimately show ?thesis
    using calm by (cases "pc s") (simp_all add: calm_def p q)
qed

lemma worker_step_calm:
  assumes inv: "pool_inv f n items s" and calm: "calm n s"
    and nocrash: "\<forall>x\<in>set items. f x \<noteq> Crash"
    and i: "i < length (workers s)" and step: "worker_step f i s (workers s ! i) = Some s'"
  shows "calm n s'"
proof (cases "workers s ! i")
  case Idle
  show ?thesis
  proof (cases "queue s")
    case Nil
    with step Idle show ?thesis by simp
  next
    case (Cons item q)
    show ?thesis
    proof (cases item)
      case None
      with step Idle Cons have s': "s' = s\<lparr>queue := q, workers := (workers s)[i := Stopped]\<rparr>"
        by simp
      have h: "halted_count ((workers s)[i := Stopped]) = Suc (halted_count (workers s))"
        using halted_count_update [OF i, of Stopped] by (simp add: Idle)
      from inv have ph: "phase_inv n s (pc s)" by (simp add: pool_inv_def)
      from calm have cp: "calm_phase n s (pc s)" by (simp add: calm_def)
      from ph cp show ?thesis
        by (cases "pc s") (simp_all add: calm_def s' h Cons None)
    next
      case (Some x)
      with step Idle Cons have s': "s' = s\<lparr>queue := q, workers := (workers s)[i := Got x]\<rparr>"
        by simp
      show ?thesis
        by (rule calm_update [OF calm i, of "Got x"]) (simp_all add: s' Idle Cons Some)
    qed
  qed
next
  case (Got x)
  from got_in_items [OF inv i Got] nocrash have "f x \<noteq> Crash" by blast
  with step Got have "workers s' = (workers s)[i := Finishing] \<and> queue s' = queue s
      \<and> pc s' = pc s"
    by (cases "f x") auto
  then show ?thesis
    by (intro calm_update [OF calm i, of Finishing]) (simp_all add: Got)
next
  case Finishing
  with step have s': "s' = s\<lparr>unfinished := unfinished s - 1, workers := (workers s)[i := Idle]\<rparr>"
    by simp
  show ?thesis
    by (rule calm_update [OF calm i, of Idle]) (simp_all add: s' Finishing)
next
  case Failing
  with step have s': "s' = s\<lparr>unfinished := unfinished s - 1, workers := (workers s)[i := Stopped]\<rparr>"
    by simp
  from failing_le_count [OF i] Failing have f: "0 < failing_count (workers s)" by simp
  from busy_le_count [OF i] Failing have b: "0 < busy_count (workers s)" by simp
  from inv have ph: "phase_inv n s (pc s)" by (simp add: pool_inv_def)
  from calm have cp: "calm_phase n s (pc s)" by (simp add: calm_def)
  from ph cp f b show ?thesis
    by (cases "pc s") (simp_all add: calm_def s')
next
  case Stopped
  with step show ?thesis by simp
qed

lemma pool_step_calm:
  assumes "pool_inv f n items s" and "calm n s" and "\<forall>x\<in>set items. f x \<noteq> Crash"
    and "pool_step f n items th s = Some s'"
  shows "calm n s'"
proof (cases th)
  case MainThread
  with assms show ?thesis
    by (simp add: pool_step_def main_step_calm)
next
  case (WorkerThread i)
  with assms(4) have i: "i < length (workers s)"
    and step: "worker_step f i s (workers s ! i) = Some s'"
    by (simp_all add: pool_step_def split: if_splits)
  from assms(1,2,3) i step show ?thesis by (rule worker_step_calm)
qed

lemma run_pool_calm:
  assumes nocrash: "\<forall>x\<in>set items. f x \<noteq> Crash"
  shows "pool_inv f n items s \<Longrightarrow> calm n s \<Longrightarrow> calm n (run_pool f n items sched s)"
proof (induction sched arbitrary: s)
  case Nil
  then show ?case by simp
next
  case (Cons th sched)
  show ?case
  proof (cases "pool_step f n items th s")
    case None
    with Cons show ?thesis by simp
  next
    case (Some s')
    from Cons.prems(1) Some have inv': "pool_inv f n items s'" by (rule pool_step_inv)
    from Cons.prems(1,2) nocrash Some have "calm n s'" by (rule pool_step_calm)
    from Cons.IH [OF inv' this] Some show ?thesis by simp
  qed
qed

text \<open>
  Termination under every fair schedule: when the body comes back on every item and
  ends no worker, each round in which every thread gets a turn lowers the bound, so
  the main thread has returned after as many rounds as the bound.
\<close>

lemma fair_rounds_reach:
  assumes n: "0 < n" and nohang: "\<forall>x\<in>set items. f x \<noteq> Hang"
    and nocrash: "\<forall>x\<in>set items. f x \<noteq> Crash"
  shows "pool_inv f n items s \<Longrightarrow> calm n s \<Longrightarrow> list_all (full_round n) rounds \<Longrightarrow>
     pool_measure n items s \<le> length rounds \<Longrightarrow>
     pc (run_pool f n items (concat rounds) s) = Returned"
proof (induction rounds arbitrary: s)
  case Nil
  then have "pc s = Returned" by (simp add: measure_0_Returned)
  then show ?case by simp
next
  case (Cons round rounds)
  let ?s' = "run_pool f n items round s"
  have inv': "pool_inv f n items ?s'"
    using Cons.prems(1) by (rule run_pool_inv)
  have calm': "calm n ?s'"
    using nocrash Cons.prems(1,2) by (rule run_pool_calm)
  from Cons.prems(3) have fair: "list_all (full_round n) rounds"
    and round: "set (MainThread # map WorkerThread [0..<n]) \<subseteq> set round"
    by (auto simp: full_round_def list_all_iff)
  show ?case
  proof (cases "pc s = Returned")
    case True
    then show ?thesis by (rule run_pool_Returned)
  next
    case False
    from pool_progress [OF Cons.prems(1,2) n nohang False] obtain th
      where en: "pool_step f n items th s \<noteq> None"
        and "th \<in> set (MainThread # map WorkerThread [0..<n])" by blast
    with round have "th \<in> set round" by blast
    from run_pool_progress [OF Cons.prems(1) en this]
    have "pool_measure n items ?s' < pool_measure n items s" .
    with Cons.prems(4) have "pool_measure n items ?s' \<le> length rounds" by simp
    from Cons.IH [OF inv' calm' fair this] show ?thesis
      by (simp only: concat.simps run_pool_append)
  qed
qed

lemma pool_measure_init: "pool_measure n items (pool_init n) = 4 * length items + 4 * n + 5"
  by (simp add: pool_measure_def pool_init_def work_left_def)

text \<open>
  After any start of the run, \<open>4 * length items + 4 * n + 5\<close> further rounds in each of
  which every thread gets a turn bring the main thread to its \<^verbatim>\<open>return\<close>.
\<close>

lemma fair_schedule_returns:
  assumes n: "0 < n" and nohang: "\<forall>x\<in>set items. f x \<noteq> Hang"
    and nocrash: "\<forall>x\<in>set items. f x \<noteq> Crash"
    and fair: "list_all (full_round n) rounds"
    and len: "4 * length items + 4 * n + 5 \<le> length rounds"
  shows "pc (run_pool f n items (sched @ concat rounds) (pool_init n)) = Returned"
proof -
  let ?s = "run_pool f n items sched (pool_init n)"
  have inv: "pool_inv f n items ?s"
    using pool_inv_init by (rule run_pool_inv)
  have calm: "calm n ?s"
    using nocrash pool_inv_init calm_init by (rule run_pool_calm)
  from run_pool_measure_le [where s = "pool_init n" and f = f and n = n and items = items
      and sched = sched, OF pool_inv_init] len
  have "pool_measure n items ?s \<le> length rounds"
    by (simp add: pool_measure_init)
  from fair_rounds_reach [OF n nohang nocrash inv calm fair this]
  show ?thesis by (simp only: run_pool_append)
qed

lemma full_round_canonical: "full_round n (MainThread # map WorkerThread [0..<n])"
  by (simp add: full_round_def list_all_iff)

lemma round_robin_fair: "list_all (full_round n) (replicate k (MainThread # map WorkerThread [0..<n]))"
  by (simp add: list_all_iff full_round_canonical)

text \<open>
  Under the round-robin schedule the main thread returns as soon as the schedule has
  \<open>4 * length items + 4 * n + 5\<close> rounds.
\<close>

lemma round_robin_returns:
  assumes "0 < n" and "\<forall>x\<in>set items. f x \<noteq> Hang" and "\<forall>x\<in>set items. f x \<noteq> Crash"
    and "4 * length items + 4 * n + 5 \<le> k"
  shows "pc (run_pool f n items (round_robin n k) (pool_init n)) = Returned"
  using fair_schedule_returns [OF assms(1,2,3) round_robin_fair [of n k], of "[]"] assms(4)
  by (simp add: round_robin_def)

lemma mset_map_filter:
  "mset (List.map_filter g xs) = image_mset (the \<circ> g) (filter_mset (\<lambda>x. g x \<noteq> None) (mset xs))"
  by (simp add: List.map_filter_def)

lemma mset_map_filter_cong:
  "mset xs = mset ys \<Longrightarrow> mset (List.map_filter g xs) = mset (List.map_filter g ys)"
  by (simp add: mset_map_filter)

text \<open>
  When the main thread has returned, every item has been processed exactly once and
  the result list is what the body appended for the processed items.
\<close>

lemma pool_returned_results:
  assumes inv: "pool_inv f n items s" and ret: "pc s = Returned"
  shows "mset (processed s) = mset items"
    and "results s = List.map_filter (appended f) (processed s)"
    and "mset (results s) = mset (List.map_filter (appended f) items)"
proof -
  from inv ret have "busy_count (workers s) = 0" and q: "queued (queue s) = []"
    by (simp_all add: pool_inv_def)
  then have "in_hand (workers s) = {#}" by (simp add: busy_count_0_in_hand)
  with inv ret q show p: "mset (processed s) = mset items"
    by (simp add: pool_inv_def)
  from inv show r: "results s = List.map_filter (appended f) (processed s)"
    by (simp add: pool_inv_def)
  from p show "mset (results s) = mset (List.map_filter (appended f) items)"
    unfolding r by (rule mset_map_filter_cong)
qed





text \<open>
  When the handler's \<^verbatim>\<open>print\<close> raises on every item, each processed item has ended a
  worker; with more items than workers the count of unfinished tasks never comes down
  to zero and the call never returns, whatever the schedule.
\<close>

lemma halted_failing_le: "halted_count ws + failing_count ws \<le> length ws"
proof (induction ws)
  case Nil
  show ?case by (simp add: counts_Nil)
next
  case (Cons w ws)
  then show ?case
    by (cases w) (simp_all add: halted_count_def failing_count_def)
qed

lemma crash_update:
  assumes c: "crash_inv s" and i: "i < length (workers s)"
    and w: "workers s' = (workers s)[i := w]"
    and le: "length (processed s') + halted (workers s ! i) + failing (workers s ! i)
               \<le> length (processed s) + halted w + failing w"
  shows "crash_inv s'"
proof -
  from halted_count_update [OF i, of w] failing_count_update [OF i, of w] c le
  show ?thesis by (simp add: crash_inv_def w)
qed

lemma worker_step_crash:
  assumes inv: "pool_inv f n items s" and c: "crash_inv s"
    and crash: "\<forall>x\<in>set items. f x = Crash"
    and i: "i < length (workers s)" and step: "worker_step f i s (workers s ! i) = Some s'"
  shows "crash_inv s'"
proof (cases "workers s ! i")
  case Idle
  show ?thesis
  proof (cases "queue s")
    case Nil
    with step Idle show ?thesis by simp
  next
    case (Cons item q)
    show ?thesis
    proof (cases item)
      case None
      with step Idle Cons have s': "s' = s\<lparr>queue := q, workers := (workers s)[i := Stopped]\<rparr>"
        by simp
      show ?thesis
        by (rule crash_update [OF c i, of _ Stopped]) (simp_all add: s' Idle)
    next
      case (Some x)
      with step Idle Cons have s': "s' = s\<lparr>queue := q, workers := (workers s)[i := Got x]\<rparr>"
        by simp
      show ?thesis
        by (rule crash_update [OF c i, of _ "Got x"]) (simp_all add: s' Idle)
    qed
  qed
next
  case (Got x)
  from got_in_items [OF inv i Got] crash have "f x = Crash" by blast
  with step Got
  have s': "s' = s\<lparr>processed := processed s @ [x], workers := (workers s)[i := Failing]\<rparr>"
    by simp
  show ?thesis
    by (rule crash_update [OF c i, of _ Failing]) (simp_all add: s' Got)
next
  case Finishing
  with step have s': "s' = s\<lparr>unfinished := unfinished s - 1, workers := (workers s)[i := Idle]\<rparr>"
    by simp
  show ?thesis
    by (rule crash_update [OF c i, of _ Idle]) (simp_all add: s' Finishing)
next
  case Failing
  with step have s': "s' = s\<lparr>unfinished := unfinished s - 1, workers := (workers s)[i := Stopped]\<rparr>"
    by simp
  show ?thesis
    by (rule crash_update [OF c i, of _ Stopped]) (simp_all add: s' Failing)
next
  case Stopped
  with step show ?thesis by simp
qed

lemma main_step_crash:
  assumes c: "crash_inv s" and step: "main_step n items s (pc s) = Some s'"
  shows "crash_inv s'"
proof (cases "pc s")
  case (Starting k)
  with c step show ?thesis
    by (cases k) (auto simp: crash_inv_def counts_snoc)
next
  case (Putting xs)
  with c step show ?thesis
    by (cases xs) (auto simp: crash_inv_def)
next
  case Joining
  with c step show ?thesis
    by (auto simp: crash_inv_def split: if_splits)
next
  case (Stopping k)
  with c step show ?thesis
    by (cases k) (auto simp: crash_inv_def)
next
  case (JoinThreads i)
  with c step show ?thesis
    by (auto simp: crash_inv_def split: if_splits)
next
  case Returned
  with step show ?thesis by simp
qed

lemma pool_step_crash:
  assumes "pool_inv f n items s" and "crash_inv s" and "\<forall>x\<in>set items. f x = Crash"
    and "pool_step f n items th s = Some s'"
  shows "crash_inv s'"
proof (cases th)
  case MainThread
  with assms show ?thesis
    by (simp add: pool_step_def main_step_crash)
next
  case (WorkerThread i)
  with assms(4) have i: "i < length (workers s)"
    and step: "worker_step f i s (workers s ! i) = Some s'"
    by (simp_all add: pool_step_def split: if_splits)
  from assms(1,2,3) i step show ?thesis by (rule worker_step_crash)
qed

lemma run_pool_crash:
  assumes crash: "\<forall>x\<in>set items. f x = Crash"
  shows "pool_inv f n items s \<Longrightarrow> crash_inv s \<Longrightarrow> crash_inv (run_pool f n items sched s)"
proof (induction sched arbitrary: s)
  case Nil
  then show ?case by simp
next
  case (Cons th sched)
  show ?case
  proof (cases "pool_step f n items th s")
    case None
    with Cons show ?thesis by simp
  next
    case (Some s')
    from Cons.prems(1) Some have inv': "pool_inv f n items s'" by (rule pool_step_inv)
    from Cons.prems(1,2) crash Some have "crash_inv s'" by (rule pool_step_crash)
    from Cons.IH [OF inv' this] Some show ?thesis by simp
  qed
qed

lemma all_crash_blocked:
  assumes crash: "\<forall>x\<in>set items. f x = Crash" and more: "n < length items"
  shows "pool_outcome (run_pool f n items sched (pool_init n)) = Blocked"
proof -
  let ?s = "run_pool f n items sched (pool_init n) :: ('a, 'b) pool"
  have inv: "pool_inv f n items ?s"
    using pool_inv_init by (rule run_pool_inv)
  have "crash_inv (pool_init n :: ('a, 'b) pool)"
    by (simp add: crash_inv_def pool_init_def)
  with crash pool_inv_init have c: "crash_inv ?s" by (rule run_pool_crash)
  have "pc ?s \<noteq> Returned"
  proof
    assume ret: "pc ?s = Returned"
    from pool_returned_results(1) [OF inv ret] have "length (processed ?s) = length items"
      by (rule mset_eq_length)
    moreover from inv ret have "length (workers ?s) = n" by (simp add: pool_inv_def)
    moreover note c halted_failing_le [of "workers ?s"] more
    ultimately show False by (simp add: crash_inv_def)
  qed
  then show ?thesis by (simp add: pool_outcome_def)
qed

section \<open>Independence of the pool size\<close>





lemma smtp_dialogue_num_threads:
  "smtp_dialogue (cfg\<lparr>num_threads := m\<rparr>) nw email port domain
     = smtp_dialogue cfg nw email port domain"
  by (simp add: smtp_dialogue_def cong: sum.case_cong option.case_cong)

lemma check_smtp_num_threads:
  "check_smtp (cfg\<lparr>num_threads := m\<rparr>) nw io email port = check_smtp cfg nw io email port"
  by (simp add: check_smtp_def smtp_dialogue_num_threads cong: sum.case_cong)

lemma probe_num_threads: "probe (cfg\<lparr>num_threads := m\<rparr>) nw io domain = probe cfg nw io domain"
  by (rule ext) (simp add: probe_def check_smtp_num_threads)





























section \<open>The bulk scheduler\<close>

lemma email_data_clean_remdups: "email_data_clean xs = remdups xs"
  by (induction xs) simp_all

lemma bulk_body_outcome:
  "bulk_body cfg lib nw io choices data =
     (case job_outcome cfg lib nw io choices data of
        Returns valid \<Rightarrow>
          Append \<lparr> result_domain = job_domain data,
                   result_names = (case job_names data of None \<Rightarrow> PList [] | Some v \<Rightarrow> v),
                   valid_emails = valid \<rparr>
      | Raises e \<Rightarrow>
          (case write_stdout io (error_text io ''Error processing '' (job_domain data) e) of
             None \<Rightarrow> Skip
           | Some e' \<Rightarrow> Crash)
      | Blocked \<Rightarrow> Hang)"
  by (simp add: bulk_body_def job_outcome_def Let_def)

lemma appended_bulk_body:
  "appended (bulk_body cfg lib nw io choices) data \<noteq> None
     \<longleftrightarrow> (\<exists>valid. job_outcome cfg lib nw io choices data = Returns valid)"
  by (simp add: bulk_body_outcome split: outcome.splits option.splits)

lemma bulk_job_ok_body:
  assumes "bulk_job_ok cfg lib nw io choices data"
  shows "bulk_body cfg lib nw io choices data \<noteq> Hang"
    and "bulk_body cfg lib nw io choices data \<noteq> Crash"
  using assms
  by (simp_all add: bulk_job_ok_def bulk_body_outcome split: outcome.splits option.splits)

lemma length_map_filter_remdups:
  "length (List.map_filter g (remdups xs)) = card {x \<in> set xs. g x \<noteq> None}"
proof -
  have "length (List.map_filter g (remdups xs)) = length (filter (\<lambda>x. g x \<noteq> None) (remdups xs))"
    by (simp add: List.map_filter_def)
  also have "\<dots> = card (set (filter (\<lambda>x. g x \<noteq> None) (remdups xs)))"
    by (rule distinct_card [symmetric]) simp
  also have "set (filter (\<lambda>x. g x \<noteq> None) (remdups xs)) = {x \<in> set xs. g x \<noteq> None}"
    by auto
  finally show ?thesis .
qed

lemma bulk_Returns:
  assumes "find_valid_emails_bulk cfg lib nw io choices sched email_data = Returns res"
  shows "mset res = mset (List.map_filter (appended (bulk_body cfg lib nw io choices))
                            (remdups email_data))"
proof -
  let ?n = "nat (num_bulk_threads cfg)"
  let ?f = "bulk_body cfg lib nw io choices"
  let ?s = "run_pool ?f ?n (remdups email_data) sched (pool_init ?n)"
  have inv: "pool_inv ?f ?n (remdups email_data) ?s"
    using pool_inv_init by (rule run_pool_inv)
  from assms have ret: "pc ?s = Returned" and res: "res = results ?s"
    by (auto simp: find_valid_emails_bulk_def pool_outcome_def Let_def email_data_clean_remdups
        split: if_splits)
  from pool_returned_results(3) [OF inv ret] show ?thesis
    by (simp add: res)
qed

text \<open>
  With at least one bulk worker and jobs in order, the call returns under every fair
  schedule that is long enough.
\<close>

lemma bulk_fair:
  assumes n: "1 \<le> num_bulk_threads cfg"
    and ok: "list_all (bulk_job_ok cfg lib nw io choices) email_data"
    and fair: "list_all (full_round (nat (num_bulk_threads cfg))) rounds"
    and len: "4 * card (set email_data) + 4 * nat (num_bulk_threads cfg) + 5 \<le> length rounds"
  shows "\<exists>res. find_valid_emails_bulk cfg lib nw io choices (sched @ concat rounds) email_data
           = Returns res"
proof -
  let ?n = "nat (num_bulk_threads cfg)"
  let ?f = "bulk_body cfg lib nw io choices"
  from n have pos: "0 < ?n" by simp
  from ok have nohang: "\<forall>data\<in>set (remdups email_data). ?f data \<noteq> Hang"
    and nocrash: "\<forall>data\<in>set (remdups email_data). ?f data \<noteq> Crash"
    by (simp_all add: list_all_iff bulk_job_ok_body)
  from len have "4 * length (remdups email_data) + 4 * ?n + 5 \<le> length rounds"
    by (simp add: length_remdups_card_conv)
  from fair_schedule_returns [OF pos nohang nocrash fair this]
  have "pc (run_pool ?f ?n (remdups email_data) (sched @ concat rounds) (pool_init ?n)) = Returned" .
  then show ?thesis
    by (simp add: find_valid_emails_bulk_def pool_outcome_def Let_def email_data_clean_remdups)
qed

text \<open>
  C7, as the code has it. The job list is cleaned of repeated jobs (a job stays when no
  later job equals it), and each remaining job is run once. A returned result list has
  exactly one entry per distinct job whose single-domain run returns, and none for a job
  whose run raises: the worker catches the exception. When every run returns, the list
  has one entry per distinct job. The call returns, under every interleaving of the
  threads that after any start goes on for \<open>4 * jobs + 4 * workers + 5\<close> rounds in each of
  which every thread gets a turn, when there is at least one bulk worker and every job
  is in order: its run comes back and, if it raises, the \<^verbatim>\<open>print\<close> of the handler does
  not raise.
\<close>

theorem bulk_one_entry_per_returning_job:
  "(\<forall>res. find_valid_emails_bulk cfg lib nw io choices sched email_data = Returns res \<longrightarrow>
      length res = card {data \<in> set email_data.
                          \<exists>valid. job_outcome cfg lib nw io choices data = Returns valid} \<and>
      mset res = mset (List.map_filter (appended (bulk_body cfg lib nw io choices))
                         (remdups email_data)) \<and>
      ((\<forall>data\<in>set email_data. \<exists>valid. job_outcome cfg lib nw io choices data = Returns valid)
         \<longrightarrow> length res = card (set email_data))) \<and>
   (1 \<le> num_bulk_threads cfg \<and> list_all (bulk_job_ok cfg lib nw io choices) email_data \<longrightarrow>
      (\<forall>start rounds.
         list_all (full_round (nat (num_bulk_threads cfg))) rounds \<and>
         4 * card (set email_data) + 4 * nat (num_bulk_threads cfg) + 5 \<le> length rounds \<longrightarrow>
         (\<exists>res. find_valid_emails_bulk cfg lib nw io choices (start @ concat rounds) email_data
            = Returns res)))"
proof (intro conjI allI impI)
  fix res
  assume ret: "find_valid_emails_bulk cfg lib nw io choices sched email_data = Returns res"
  from bulk_Returns [OF ret]
  show m: "mset res = mset (List.map_filter (appended (bulk_body cfg lib nw io choices))
                         (remdups email_data))" .
  from m have "length res = length (List.map_filter (appended (bulk_body cfg lib nw io choices))
                         (remdups email_data))"
    by (rule mset_eq_length)
  also have "\<dots> = card {data \<in> set email_data.
      appended (bulk_body cfg lib nw io choices) data \<noteq> None}"
    by (rule length_map_filter_remdups)
  also have "{data \<in> set email_data. appended (bulk_body cfg lib nw io choices) data \<noteq> None}
      = {data \<in> set email_data. \<exists>valid. job_outcome cfg lib nw io choices data = Returns valid}"
    using appended_bulk_body [of cfg lib nw io choices] by blast
  finally show len: "length res = card {data \<in> set email_data.
                          \<exists>valid. job_outcome cfg lib nw io choices data = Returns valid}" .
  assume "\<forall>data\<in>set email_data. \<exists>valid. job_outcome cfg lib nw io choices data = Returns valid"
  then have "{data \<in> set email_data.
      \<exists>valid. job_outcome cfg lib nw io choices data = Returns valid} = set email_data"
    by auto
  with len show "length res = card (set email_data)" by simp
next
  fix start :: "thread list" and rounds
  assume "1 \<le> num_bulk_threads cfg \<and> list_all (bulk_job_ok cfg lib nw io choices) email_data"
    and "list_all (full_round (nat (num_bulk_threads cfg))) rounds \<and>
         4 * card (set email_data) + 4 * nat (num_bulk_threads cfg) + 5 \<le> length rounds"
  then show "\<exists>res. find_valid_emails_bulk cfg lib nw io choices (start @ concat rounds) email_data
            = Returns res"
    using bulk_fair [of cfg lib nw io choices email_data rounds start] by blast
qed

lemma example_bulk_run:
  "find_valid_emails_bulk default_config example_textlib example_net ascii_console example_choices
      (round_robin 1 20) example_jobs
    = Returns
       [\<lparr> result_domain = ascii ''example.com'', result_names = PList [PStr (ascii ''cd'')],
           valid_emails = [] \<rparr>,
        \<lparr> result_domain = ascii ''example.com'', result_names = PStr (ascii ''Ab''),
           valid_emails = [ascii ''ab@example.com''] \<rparr>]"
  by code_simp

lemma example_jobs_outcomes:
  "map (job_outcome default_config example_textlib example_net ascii_console example_choices)
     example_jobs
     = [Returns [ascii ''ab@example.com''], Returns [], Returns [ascii ''ab@example.com'']]"
  by code_simp

lemma example_jobs_ok:
  "list_all (bulk_job_ok default_config example_textlib example_net ascii_console example_choices)
     example_jobs"
  by code_simp

lemma example_jobs_card: "card (set example_jobs) = 2"
  by code_simp

text \<open>
  An instance: three jobs, two of them equal, with the default single bulk worker under
  20 rounds of the round-robin schedule.
\<close>

theorem bulk_one_entry_per_returning_job_witness:
  "1 \<le> num_bulk_threads default_config \<and>
   list_all (bulk_job_ok default_config example_textlib example_net ascii_console example_choices)
     example_jobs \<and>
   list_all (full_round (nat (num_bulk_threads default_config)))
     (replicate 20 (MainThread # map WorkerThread [0..<1])) \<and>
   4 * card (set example_jobs) + 4 * nat (num_bulk_threads default_config) + 5
     \<le> length (replicate 20 (MainThread # map WorkerThread [0..<1])) \<and>
   (\<exists>res. find_valid_emails_bulk default_config example_textlib example_net ascii_console
      example_choices (round_robin 1 20) example_jobs = Returns res) \<and>
   find_valid_emails_bulk default_config example_textlib example_net ascii_console example_choices
      (round_robin 1 20) example_jobs
    = Returns
       [\<lparr> result_domain = ascii ''example.com'', result_names = PList [PStr (ascii ''cd'')],
           valid_emails = [] \<rparr>,
        \<lparr> result_domain = ascii ''example.com'', result_names = PStr (ascii ''Ab''),
           valid_emails = [ascii ''ab@example.com''] \<rparr>] \<and>
   length example_jobs = 3 \<and> card (set example_jobs) = 2 \<and>
   map (job_outcome default_config example_textlib example_net ascii_console example_choices)
     example_jobs
     = [Returns [ascii ''ab@example.com''], Returns [], Returns [ascii ''ab@example.com'']] \<and>
   length [\<lparr> result_domain = ascii ''example.com'', result_names = PList [PStr (ascii ''cd'')],
           valid_emails = [] \<rparr>,
        \<lparr> result_domain = ascii ''example.com'', result_names = PStr (ascii ''Ab''),
           valid_emails = [ascii ''ab@example.com''] \<rparr>] = card (set example_jobs)"
proof -
  let ?rounds = "replicate 20 (MainThread # map WorkerThread [0..<1])"
  note main = bulk_one_entry_per_returning_job [of default_config example_textlib example_net
      ascii_console example_choices "round_robin 1 20" example_jobs]
  have h1: "1 \<le> num_bulk_threads default_config"
    by (simp add: default_config_def)
  have n1: "nat (num_bulk_threads default_config) = 1"
    by (simp add: default_config_def)
  have fair: "list_all (full_round (nat (num_bulk_threads default_config))) ?rounds"
    unfolding n1 by (rule round_robin_fair)
  have len: "4 * card (set example_jobs) + 4 * nat (num_bulk_threads default_config) + 5
      \<le> length ?rounds"
    by (simp add: example_jobs_card n1)
  from main h1 example_jobs_ok fair len
  have "\<exists>res. find_valid_emails_bulk default_config example_textlib example_net ascii_console
      example_choices ([] @ concat ?rounds) example_jobs = Returns res"
    by blast
  then have ret: "\<exists>res. find_valid_emails_bulk default_config example_textlib example_net
      ascii_console example_choices (round_robin 1 20) example_jobs = Returns res"
    by (simp add: round_robin_def)
  have all: "\<forall>data\<in>set example_jobs.
      \<exists>valid. job_outcome default_config example_textlib example_net ascii_console
        example_choices data = Returns valid"
    using example_jobs_outcomes by (auto simp: example_jobs_def)
  from main example_bulk_run all
  have "length [\<lparr> result_domain = ascii ''example.com'', result_names = PList [PStr (ascii ''cd'')],
           valid_emails = [] \<rparr>,
        \<lparr> result_domain = ascii ''example.com'', result_names = PStr (ascii ''Ab''),
           valid_emails = [ascii ''ab@example.com''] \<rparr>] = card (set example_jobs)"
    by blast
  moreover have "length example_jobs = 3" by (simp add: example_jobs_def)
  moreover note h1 example_jobs_ok fair len ret example_bulk_run example_jobs_outcomes
    example_jobs_card
  ultimately show ?thesis by blast
qed

lemma unprintable_jobs_crash:
  "list_all (\<lambda>data. bulk_body default_config example_textlib example_net ascii_console
      example_choices data = Crash) (email_data_clean unprintable_jobs)"
  by code_simp

lemma unprintable_jobs_length: "length (email_data_clean unprintable_jobs) = 2"
  by code_simp

lemma unprintable_jobs_blocked:
  "find_valid_emails_bulk default_config example_textlib example_net ascii_console
     example_choices sched unprintable_jobs = Blocked"
proof -
  let ?n = "nat (num_bulk_threads default_config)"
  have "\<forall>data\<in>set (email_data_clean unprintable_jobs).
      bulk_body default_config example_textlib example_net ascii_console example_choices data
        = Crash"
    using unprintable_jobs_crash by (simp only: list_all_iff)
  moreover have "?n < length (email_data_clean unprintable_jobs)"
    by (simp add: unprintable_jobs_length default_config_def)
  ultimately have "pool_outcome (run_pool (bulk_body default_config example_textlib example_net
      ascii_console example_choices) ?n (email_data_clean unprintable_jobs) sched (pool_init ?n))
        = Blocked"
    by (rule all_crash_blocked)
  then show ?thesis
    by (simp only: find_valid_emails_bulk_def Let_def)
qed

text \<open>
  Against the claim as it stands. One job whose name holds two consecutive spaces: its
  run raises IndexError (the empty token), the worker reports it, and the result list is
  empty although the list of jobs has one distinct job. And two distinct jobs on a domain
  that the standard output cannot print (an ASCII output, the code point 233): the run
  of the first job taken raises out of the catch-all check, the \<^verbatim>\<open>print\<close> of the bulk
  worker's handler raises in turn and ends the single bulk worker, the other job is
  never run and the call never returns, under any schedule.
\<close>

theorem bulk_raising_job_counterexample:
  "find_valid_emails_bulk default_config example_textlib example_net ascii_console example_choices
      (round_robin 1 12) [failing_job] = Returns [] \<and>
   job_outcome default_config example_textlib example_net ascii_console example_choices failing_job
     = Raises IndexError \<and>
   length ([] :: bulk_result list) \<noteq> card (set [failing_job]) \<and>
   card (set unprintable_jobs) = 2 \<and>
   (\<forall>sched. find_valid_emails_bulk default_config example_textlib example_net ascii_console
      example_choices sched unprintable_jobs = Blocked)"
proof -
  have "find_valid_emails_bulk default_config example_textlib example_net ascii_console
      example_choices (round_robin 1 12) [failing_job] = Returns []"
    by code_simp
  moreover have "job_outcome default_config example_textlib example_net ascii_console
      example_choices failing_job = Raises IndexError"
    by code_simp
  moreover have "card (set unprintable_jobs) = 2"
    by code_simp
  moreover note unprintable_jobs_blocked
  ultimately show ?thesis by simp
qed

section \<open>The name normalizer\<close>

lemma is_alnum_lower: "is_alnum c \<Longrightarrow> is_alnum (ascii_lower c) \<and> ascii_lower c < 128"
  by (auto simp: is_alnum_def ascii_lower_def)

lemma normalize_name_alnum: "list_all is_alnum (normalize_name lib x)"
  by (simp add: normalize_name_def list_all_iff)

lemma filter_lowered:
  "list_all is_alnum s \<Longrightarrow> filter is_alnum (ascii_ignore (map ascii_lower s)) = map ascii_lower s"
  by (induction s) (auto simp: ascii_ignore_def dest: is_alnum_lower)

text \<open>
  A second pass lower-cases the result of the first and does nothing else, so the
  normalizer is idempotent exactly on the inputs whose first pass has no capital.
\<close>

lemma normalize_name_twice:
  assumes "ascii_transparent lib"
  shows "normalize_name lib (normalize_name lib x) = map ascii_lower (normalize_name lib x)"
proof -
  let ?y = "normalize_name lib x"
  have y: "list_all is_alnum ?y" by (rule normalize_name_alnum)
  with assms have "str_lower lib (str_upper lib ?y) = map ascii_lower ?y"
    and "unidecode lib (map ascii_lower ?y) = map ascii_lower ?y"
    and "nfkd lib (map ascii_lower ?y) = map ascii_lower ?y"
    by (simp_all add: ascii_transparent_def)
  then have "normalize_name lib ?y = filter is_alnum (ascii_ignore (map ascii_lower ?y))"
    by (simp add: normalize_name_def [of lib ?y] Let_def)
  with filter_lowered [OF y] show ?thesis by simp
qed

lemma upper_lower_alnum: "is_alnum c \<Longrightarrow> ascii_lower (ascii_upper c) = ascii_lower c"
  by (auto simp: is_alnum_def ascii_lower_def ascii_upper_def)

lemma unidecode_fragment_ascii:
  "\<forall>c\<in>set s. c < 128 \<Longrightarrow> concat (map unidecode_fragment s) = s"
  by (induction s) (auto simp: unidecode_fragment_def)

lemma example_textlib_transparent: "ascii_transparent example_textlib"
proof -
  have "str_lower example_textlib (str_upper example_textlib s) = map ascii_lower s \<and>
        unidecode example_textlib (map ascii_lower s) = map ascii_lower s \<and>
        nfkd example_textlib (map ascii_lower s) = map ascii_lower s"
    if "list_all is_alnum s" for s
  proof -
    from that have "\<forall>c\<in>set (map ascii_lower s). c < 128"
      by (auto simp: list_all_iff dest: is_alnum_lower)
    from unidecode_fragment_ascii [OF this] that show ?thesis
      by (simp add: example_textlib_def list_all_iff upper_lower_alnum)
  qed
  then show ?thesis by (simp add: ascii_transparent_def)
qed

text \<open>
  C9, at the two-character name U+5317 U+4EB0. Line 104 folds the case before
  \<^verbatim>\<open>unidecode\<close> runs; the transliteration \<^verbatim>\<open>'Bei Jing '\<close> brings capitals back,
  and the class of line 116 keeps them: the first pass gives \<^verbatim>\<open>BeiJing\<close>, the
  second \<^verbatim>\<open>beijing\<close>.
\<close>

theorem normalize_name_not_idempotent:
  "normalize_name example_textlib [0x5317, 0x4EB0] = ascii ''BeiJing'' \<and>
   normalize_name example_textlib (normalize_name example_textlib [0x5317, 0x4EB0])
     = ascii ''beijing'' \<and>
   normalize_name example_textlib (normalize_name example_textlib [0x5317, 0x4EB0])
     \<noteq> normalize_name example_textlib [0x5317, 0x4EB0]"
proof -
  have one: "normalize_name example_textlib [0x5317, 0x4EB0] = ascii ''BeiJing''"
    by code_simp
  have two: "normalize_name example_textlib (ascii ''BeiJing'') = ascii ''beijing''"
    by code_simp
  have "ascii ''beijing'' \<noteq> ascii ''BeiJing''"
    by (simp add: ascii_def)
  with one two show ?thesis by simp
qed

text \<open>Two of the repository's own tests, which expect lower-case results.\<close>

lemma repo_test_names:
  "normalize_name example_textlib (ascii ''John'') = ascii ''john'' \<and>
   normalize_name example_textlib (ascii ''ANNA'') = ascii ''anna''"
  by code_simp

section \<open>Candidates without repetition\<close>

lemma inj_at_domain: "at_domain v domain = at_domain v' domain \<Longrightarrow> v = v'"
  by (simp add: at_domain_def)

lemma distinct_map_at_domain:
  "distinct vs \<Longrightarrow> distinct (map (\<lambda>v. at_domain v domain) vs)"
  by (simp add: distinct_map inj_on_def at_domain_def)

lemma generate_email_variants_distinct:
  assumes "generate_email_variants lib names domain norm = Inr vs"
  shows "distinct vs"
proof -
  let ?names = "if norm then map (normalize_name lib) names else names"
  from assms obtain res where res: "add_names (add_combinations ?names) ?names = Inr res"
    and vs: "vs = map (\<lambda>variant. at_domain variant domain) res"
    by (auto simp: generate_email_variants_def Let_def split: sum.splits)
  from add_names_Inr [OF res] distinct_add_combinations have "distinct res" by blast
  then show ?thesis unfolding vs by (rule distinct_map_at_domain)
qed

lemma distinct_common_prefixes: "distinct common_prefixes"
  by code_simp

lemma generate_prefixes_distinct: "distinct (generate_prefixes domain None)"
  unfolding generate_prefixes_def Let_def option.case
  using distinct_common_prefixes by (rule distinct_map_at_domain)

lemma split_list_data_nonempty:
  "split_list_data target = Inr tokens \<Longrightarrow> target \<noteq> [] \<Longrightarrow> tokens \<noteq> []"
  by (cases target rule: split_list_data.cases)
     (auto simp: split_on_not_Nil split: sum.splits)

lemma variants_of_list_flat:
  assumes "variants_of_list cfg lib domain names = Inr (vs, names')"
    and "\<not> nested (PList names)" and "names \<noteq> []"
  shows "distinct vs \<and> truthy names'"
proof -
  from assms(2) have flat: "variants_of_list cfg lib domain names =
     (case split_list_data names of
        Inl e \<Rightarrow> Inl e
      | Inr tokens \<Rightarrow>
     (case generate_email_variants lib tokens domain (normalize_opt cfg) of
        Inl e \<Rightarrow> Inl e
      | Inr email_variants \<Rightarrow> Inr (email_variants, PList (map PStr tokens))))"
    by (cases "(cfg, lib, domain, names)" rule: variants_of_list.cases) simp_all
  with assms(1) obtain tokens where t: "split_list_data names = Inr tokens"
    and g: "generate_email_variants lib tokens domain (normalize_opt cfg) = Inr vs"
    and n: "names' = PList (map PStr tokens)"
    by (auto split: sum.splits)
  from split_list_data_nonempty [OF t assms(3)] generate_email_variants_distinct [OF g] n
  show ?thesis by simp
qed

lemma PStr_items_flat: "\<not> nested (PList (map PStr ws))"
  by (cases ws) simp_all

text \<open>
  For a name argument that is not a list of lists (none, a single string, a flat list)
  the candidate list has no repetition: the variants come from one set, the prefixes
  of the catalogue differ from one another, and only one of the two is used.
\<close>

lemma all_emails_distinct_flat:
  assumes "all_emails cfg lib domain names = Inr emails" and "\<not> nested names"
  shows "distinct emails"
proof (cases "check_variants cfg \<and> truthy names")
  case False
  with assms(1) show ?thesis
    by (auto simp: all_emails_def generate_prefixes_distinct split: if_splits)
next
  case True
  with assms(1) obtain vs names' where v: "variants_of_names cfg lib domain names = Inr (vs, names')"
    and e: "emails = vs @ (if check_prefixes cfg \<and> \<not> truthy names'
                  then generate_prefixes domain None else [])"
    by (auto simp: all_emails_def Let_def split: sum.splits)
  have "distinct vs \<and> truthy names'"
  proof (cases names)
    case PNone
    with True show ?thesis by simp
  next
    case (PStr s)
    with v have "variants_of_list cfg lib domain (map PStr (split_on SPACE s)) = Inr (vs, names')"
      by simp
    then show ?thesis
      by (rule variants_of_list_flat) (simp_all add: PStr_items_flat split_on_not_Nil)
  next
    case (PList l)
    with v have "variants_of_list cfg lib domain l = Inr (vs, names')" by simp
    moreover from assms(2) PList have "\<not> nested (PList l)" by simp
    moreover from True PList have "l \<noteq> []" by simp
    ultimately show ?thesis by (rule variants_of_list_flat)
  qed
  with e show ?thesis by simp
qed

end
